theory Spec2Isabelle
  imports Main "HOL-Library.Sublist"
begin

section \<open>Data model (types.ts)\<close>

text \<open>
  Describe blocks are mutable objects that refer to each other (parent pointer, children
  array, the back reference of a test case), and the runner mutates the flags of a block
  through the parent pointer of a descendant. The model therefore keeps the blocks in an
  explicit store: a block identity is a natural number, \<open>0\<close> is the root block, and
  \<open>describe\<close> allocates the next free identity.

  A value that JavaScript code can throw is either an instance of \<open>Error\<close> (with its
  \<open>name\<close>, \<open>message\<close> and \<open>stack\<close> properties) or some other value. Of a non-Error
  value only its \<open>String(e)\<close> coercion is ever used by the code. The coercion calls the
  value's own \<open>toString\<close> or \<open>valueOf\<close> and throws whatever they throw, or a
  \<open>TypeError\<close> when the value has neither (\<open>Object.create(null)\<close>); a value is taken
  to coerce in the same way each time.

  A string is a list of characters with code points below 256.
\<close>

type_synonym bid = nat

datatype stackProp =
    StackMissing          \<comment> \<open>\<open>stack\<close> is undefined\<close>
  | StackString string    \<comment> \<open>\<open>stack\<close> is a string\<close>
  | StackOther            \<comment> \<open>\<open>stack\<close> is a truthy value that is not a string\<close>

datatype thrown =
    ErrorObj string string stackProp   \<comment> \<open>\<open>e instanceof Error\<close>: name, message, stack\<close>
  | NonError string                    \<comment> \<open>any other value whose \<open>String(e)\<close> is the given string\<close>
  | Uncoercible thrown                 \<comment> \<open>any other value whose \<open>String(e)\<close> throws the given value\<close>

record SafeError =
  se_name :: "string option"
  se_message :: string
  se_file :: "string option"
  se_line :: "nat option"
  se_column :: "nat option"
  se_stack :: "string list option"

datatype TestStatus = Passed | Failed | Skipped

text \<open>The \<open>duration\<close> field of a result (wall-clock time) is not modelled.\<close>

record TestResult =
  r_suite :: string
  r_test :: string
  r_status :: TestStatus
  r_error :: "SafeError option"

text \<open>
  A test body or hook is a function value: it has an identity (\<open>fn_id\<close>, the reference) and a
  behaviour. The behaviour acts on the world \<open>'w\<close> outside the framework and either returns
  or throws. An asynchronous body is awaited by every caller, so it is the same as a
  synchronous one here.
\<close>

datatype 'w HookFn = HookFn (fn_id: nat) (fn_body: "'w \<Rightarrow> 'w \<times> thrown option")

type_synonym 'w TestFn = "'w HookFn"

record 'w TestCase =
  tc_name :: string
  tc_fn :: "'w TestFn"
  tc_tags :: "string list"
  tc_describeBlock :: bid

record 'w DescribeBlock =
  name :: string
  parent :: "bid option"
  children :: "bid list"
  tests :: "'w TestCase list"
  beforeAllHooks :: "'w HookFn list"
  beforeEachHooks :: "'w HookFn list"
  afterEachHooks :: "'w HookFn list"
  afterAllHooks :: "'w HookFn list"
  ranBeforeAll :: bool
  executed :: bool

datatype hookType = BeforeAll | BeforeEach | AfterEach | AfterAll

section \<open>Registration (dsl.ts)\<close>

text \<open>
  The module state of dsl.ts: the store of blocks, the next free identity, and the pointer
  \<open>currentDescribeBlock\<close>. The pointer is an option only so that the test
  \<open>!currentDescribeBlock\<close> of the source can be written down.
\<close>

record 'w dsl =
  blocks :: "bid \<Rightarrow> 'w DescribeBlock"
  nextId :: bid
  currentDescribeBlock :: "bid option"

definition createDescribeBlock :: "string \<Rightarrow> bid option \<Rightarrow> 'w DescribeBlock" where
  "createDescribeBlock nm p =
     \<lparr> name = nm, parent = p, children = [], tests = [],
       beforeAllHooks = [], beforeEachHooks = [], afterEachHooks = [], afterAllHooks = [],
       ranBeforeAll = False, executed = False \<rparr>"

definition rootDescribeBlock :: bid where
  "rootDescribeBlock = 0"

definition initialDsl :: "'w dsl" where
  "initialDsl =
     \<lparr> blocks = (\<lambda>_. createDescribeBlock ''Root'' None), nextId = 1,
       currentDescribeBlock = Some rootDescribeBlock \<rparr>"

definition isWordChar :: "char \<Rightarrow> bool" where
  "isWordChar c =
     (let n = of_char c :: nat in
      (48 \<le> n \<and> n \<le> 57) \<or> (65 \<le> n \<and> n \<le> 90) \<or> (97 \<le> n \<and> n \<le> 122) \<or> n = 95)"

text \<open>
  The characters that \<open>String.prototype.trim\<close> removes, among the code points below 256:
  tab, line feed, vertical tab, form feed, carriage return, space and no-break space.
\<close>

definition isSpaceChar :: "char \<Rightarrow> bool" where
  "isSpaceChar c = (let n = of_char c :: nat in n = 32 \<or> (9 \<le> n \<and> n \<le> 13) \<or> n = 160)"

definition trim :: "string \<Rightarrow> string" where
  "trim s = rev (dropWhile isSpaceChar (rev (dropWhile isSpaceChar s)))"

text \<open>\<open>name.replace(/@\w+/g, ...)\<close>: every match is removed and recorded without its \<open>@\<close>.\<close>

function replaceTags :: "string \<Rightarrow> string \<times> string list" where
  "replaceTags [] = ([], [])"
| "replaceTags (c # cs) =
     (if c = CHR ''@'' \<and> takeWhile isWordChar cs \<noteq> []
      then (case replaceTags (dropWhile isWordChar cs) of
              (clean, tags) \<Rightarrow> (clean, takeWhile isWordChar cs # tags))
      else (case replaceTags cs of (clean, tags) \<Rightarrow> (c # clean, tags)))"
  by pat_completeness auto
termination
  by (relation "measure length") (auto simp: length_dropWhile_le less_Suc_eq_le)

definition extractTags :: "string \<Rightarrow> string \<times> string list" where
  "extractTags nm = (case replaceTags nm of (clean, tags) \<Rightarrow> (trim clean, tags))"

text \<open>
  The body of a \<open>describe\<close> is a callback that registers into the module state; it may
  throw, and the \<open>finally\<close> restores the pointer before the exception goes on.
\<close>

definition describe ::
  "string \<Rightarrow> ('w dsl \<Rightarrow> thrown option \<times> 'w dsl) \<Rightarrow> 'w dsl \<Rightarrow> thrown option \<times> 'w dsl" where
  "describe nm fn d =
     (case currentDescribeBlock d of
        None \<Rightarrow> (Some (ErrorObj ''TypeError'' ''Cannot read properties of null'' StackMissing), d)
      | Some par \<Rightarrow>
          (let blockName = fst (extractTags nm);
               newBlock = nextId d;
               d1 = d\<lparr> blocks := (blocks d)(newBlock := createDescribeBlock blockName (Some par)),
                       nextId := Suc newBlock \<rparr>;
               d2 = d1\<lparr> blocks := (blocks d1)(par := (blocks d1 par)
                              \<lparr> children := children (blocks d1 par) @ [newBlock] \<rparr>) \<rparr>;
               d3 = d2\<lparr> currentDescribeBlock := Some newBlock \<rparr>;
               (r, d4) = fn d3
           in (r, d4\<lparr> currentDescribeBlock := Some par \<rparr>)))"

definition it :: "string \<Rightarrow> 'w TestFn \<Rightarrow> 'w dsl \<Rightarrow> thrown option \<times> 'w dsl" where
  "it nm fn d =
     (case currentDescribeBlock d of
        None \<Rightarrow>
          (Some (ErrorObj ''Error''
             ''Cannot call 'it' outside of a 'describe' block (or globally if supported).''
             StackMissing), d)
      | Some cur \<Rightarrow>
          (let (testName, testTags) = extractTags nm;
               testCase = \<lparr> tc_name = testName, tc_fn = fn, tc_tags = testTags,
                            tc_describeBlock = cur \<rparr>
           in (None, d\<lparr> blocks := (blocks d)(cur := (blocks d cur)
                              \<lparr> tests := tests (blocks d cur) @ [testCase] \<rparr>) \<rparr>)))"

definition hookError :: "string \<Rightarrow> thrown" where
  "hookError nm =
     ErrorObj ''Error''
       (''Cannot call '' @ [CHR 0x27] @ nm @ [CHR 0x27] @ '' outside of a 'describe' block.'')
       StackMissing"

definition beforeAll :: "'w HookFn \<Rightarrow> 'w dsl \<Rightarrow> thrown option \<times> 'w dsl" where
  "beforeAll fn d =
     (case currentDescribeBlock d of
        None \<Rightarrow> (Some (hookError ''beforeAll''), d)
      | Some cur \<Rightarrow>
          (None, d\<lparr> blocks := (blocks d)(cur := (blocks d cur)
                       \<lparr> beforeAllHooks := beforeAllHooks (blocks d cur) @ [fn] \<rparr>) \<rparr>))"

definition beforeEach :: "'w HookFn \<Rightarrow> 'w dsl \<Rightarrow> thrown option \<times> 'w dsl" where
  "beforeEach fn d =
     (case currentDescribeBlock d of
        None \<Rightarrow> (Some (hookError ''beforeEach''), d)
      | Some cur \<Rightarrow>
          (None, d\<lparr> blocks := (blocks d)(cur := (blocks d cur)
                       \<lparr> beforeEachHooks := beforeEachHooks (blocks d cur) @ [fn] \<rparr>) \<rparr>))"

definition afterEach :: "'w HookFn \<Rightarrow> 'w dsl \<Rightarrow> thrown option \<times> 'w dsl" where
  "afterEach fn d =
     (case currentDescribeBlock d of
        None \<Rightarrow> (Some (hookError ''afterEach''), d)
      | Some cur \<Rightarrow>
          (None, d\<lparr> blocks := (blocks d)(cur := (blocks d cur)
                       \<lparr> afterEachHooks := afterEachHooks (blocks d cur) @ [fn] \<rparr>) \<rparr>))"

definition afterAll :: "'w HookFn \<Rightarrow> 'w dsl \<Rightarrow> thrown option \<times> 'w dsl" where
  "afterAll fn d =
     (case currentDescribeBlock d of
        None \<Rightarrow> (Some (hookError ''afterAll''), d)
      | Some cur \<Rightarrow>
          (None, d\<lparr> blocks := (blocks d)(cur := (blocks d cur)
                       \<lparr> afterAllHooks := afterAllHooks (blocks d cur) @ [fn] \<rparr>) \<rparr>))"

text \<open>
  A registration script is a sequence of calls; a call that throws ends the script, as an
  uncaught exception ends the callback it is in.
\<close>

fun seq :: "('w dsl \<Rightarrow> thrown option \<times> 'w dsl) list \<Rightarrow> 'w dsl \<Rightarrow> thrown option \<times> 'w dsl" where
  "seq [] d = (None, d)"
| "seq (c # cs) d = (case c d of (None, d') \<Rightarrow> seq cs d' | (Some e, d') \<Rightarrow> (Some e, d'))"

subsection \<open>Helpers of the runner\<close>

fun join :: "string \<Rightarrow> string list \<Rightarrow> string" where
  "join sep [] = []"
| "join sep [x] = x"
| "join sep (x # y # ys) = x @ sep @ join sep (y # ys)"

text \<open>
  The three loops that climb the parent pointers are bounded by fuel; \<open>None\<close> means that
  the loop did not end within the fuel. The callers give \<open>nextId\<close>, the number of blocks
  there are, which is enough for every chain of distinct blocks.
\<close>

fun suitePathLoop :: "nat \<Rightarrow> (bid \<Rightarrow> 'w DescribeBlock) \<Rightarrow> bid \<Rightarrow> string list \<Rightarrow> string list option" where
  "suitePathLoop 0 bs cur path = None"
| "suitePathLoop (Suc n) bs cur path =
     (case parent (bs cur) of
        None \<Rightarrow> Some path
      | Some p \<Rightarrow> suitePathLoop n bs p (name (bs cur) # path))"

definition getSuitePath :: "'w dsl \<Rightarrow> bid \<Rightarrow> string option" where
  "getSuitePath d block = map_option (join '' > '') (suitePathLoop (Suc (nextId d)) (blocks d) block [])"

fun blockChainLoop :: "nat \<Rightarrow> (bid \<Rightarrow> 'w DescribeBlock) \<Rightarrow> bid option \<Rightarrow> bid list \<Rightarrow> bid list option" where
  "blockChainLoop n bs None chain = Some chain"
| "blockChainLoop 0 bs (Some cur) chain = None"
| "blockChainLoop (Suc n) bs (Some cur) chain = blockChainLoop n bs (parent (bs cur)) (chain @ [cur])"

definition hooksOf :: "hookType \<Rightarrow> 'w DescribeBlock \<Rightarrow> 'w HookFn list" where
  "hooksOf ty b =
     (case ty of BeforeAll \<Rightarrow> beforeAllHooks b | BeforeEach \<Rightarrow> beforeEachHooks b
               | AfterEach \<Rightarrow> afterEachHooks b | AfterAll \<Rightarrow> afterAllHooks b)"

definition collectHooks :: "'w dsl \<Rightarrow> bid \<Rightarrow> hookType \<Rightarrow> 'w HookFn list option" where
  "collectHooks d block ty =
     (case blockChainLoop (nextId d) (blocks d) (Some block) [] of
        None \<Rightarrow> None
      | Some blockChain \<Rightarrow>
          Some (if ty = BeforeAll \<or> ty = BeforeEach
                then concat (map (\<lambda>b. hooksOf ty (blocks d b)) (rev blockChain))
                else concat (map (\<lambda>b. hooksOf ty (blocks d b)) blockChain)))"


section \<open>Error normalisation (runner.ts, parseError)\<close>

text \<open>
  The four regular expressions that recognise a stack frame are not modelled; their joint
  result on one line (the first of the four that matches gives file, line and column) is the
  parameter \<open>frameOf\<close> of \<open>parseError\<close>.
\<close>

type_synonym frameOf = "string \<Rightarrow> (string \<times> nat \<times> nat) option"

record StackFrame =
  sf_file :: string
  sf_line :: nat
  sf_column :: nat
  sf_isTestFile :: bool

fun splitOn :: "char \<Rightarrow> string \<Rightarrow> string \<Rightarrow> string list" where
  "splitOn c acc [] = [rev acc]"
| "splitOn c acc (x # xs) = (if x = c then rev acc # splitOn c [] xs else splitOn c (x # acc) xs)"

fun startsWith :: "string \<Rightarrow> string \<Rightarrow> bool" where
  "startsWith s [] = True"
| "startsWith [] (p # ps) = False"
| "startsWith (x # xs) (p # ps) = (x = p \<and> startsWith xs ps)"

fun includesStr :: "string \<Rightarrow> string \<Rightarrow> bool" where
  "includesStr [] p = (p = [])"
| "includesStr (x # xs) p = (startsWith (x # xs) p \<or> includesStr xs p)"

definition endsWith :: "string \<Rightarrow> string \<Rightarrow> bool" where
  "endsWith s p = startsWith (rev s) (rev p)"

definition isTestFilePath :: "string \<Rightarrow> bool" where
  "isTestFilePath file =
     (includesStr file [CHR 0x5C, CHR ''t'', CHR ''e'', CHR ''s'', CHR ''t'', CHR 0x5C]
      \<or> includesStr file ''/test/'' \<or> endsWith file ''.test.ts'')"

fun scanFrames :: "frameOf \<Rightarrow> string list \<Rightarrow> StackFrame list" where
  "scanFrames fo [] = []"
| "scanFrames fo (frameLine # ls) =
     (if \<not> startsWith frameLine ''at '' then scanFrames fo ls
      else (case fo frameLine of
              None \<Rightarrow> scanFrames fo ls
            | Some (file, line, column) \<Rightarrow>
                \<lparr> sf_file = file, sf_line = line, sf_column = column,
                  sf_isTestFile = isTestFilePath file \<rparr> # scanFrames fo ls))"

text \<open>The comparator of \<open>frames.sort\<close> puts test files first; the sort is stable.\<close>

definition sortFrames :: "StackFrame list \<Rightarrow> StackFrame list" where
  "sortFrames frames = filter sf_isTestFile frames @ filter (\<lambda>f. \<not> sf_isTestFile f) frames"

text \<open>\<open>String(e)\<close>; for an Error it is \<open>Error.prototype.toString\<close>.\<close>

fun coerceString :: "thrown \<Rightarrow> thrown + string" where
  "coerceString (ErrorObj nm msg st) =
     Inr (if nm = [] then msg else if msg = [] then nm else nm @ '': '' @ msg)"
| "coerceString (NonError s) = Inr s"
| "coerceString (Uncoercible t) = Inl t"

text \<open>\<open>Object.create(null)\<close>, as a thrown value.\<close>

definition nullPrototypeObject :: thrown where
  "nullPrototypeObject =
     Uncoercible (ErrorObj ''TypeError'' ''Cannot convert object to primitive value'' StackMissing)"

definition messageOnly :: "string \<Rightarrow> SafeError" where
  "messageOnly msg =
     \<lparr> se_name = None, se_message = msg, se_file = None, se_line = None, se_column = None,
       se_stack = None \<rparr>"

text \<open>The body of the \<open>try\<close>: \<open>Inl\<close> is the exception that leaves it.\<close>

fun parseErrorTry :: "frameOf \<Rightarrow> thrown \<Rightarrow> thrown + SafeError" where
  "parseErrorTry fo (ErrorObj nm msg StackOther) =
     Inl (ErrorObj ''TypeError'' ''stack.split is not a function'' StackMissing)"
| "parseErrorTry fo (ErrorObj nm msg st) =
     (let lines = (case st of StackString (c # cs) \<Rightarrow> map trim (splitOn CHR 0x0A [] (c # cs))
                            | _ \<Rightarrow> [])
      in case sortFrames (scanFrames fo lines) of
           bestFrame # _ \<Rightarrow>
             Inr \<lparr> se_name = Some nm, se_message = msg, se_file = Some (sf_file bestFrame),
                   se_line = Some (sf_line bestFrame), se_column = Some (sf_column bestFrame),
                   se_stack = Some lines \<rparr>
         | [] \<Rightarrow>
             Inr \<lparr> se_name = Some nm, se_message = msg, se_file = None, se_line = None,
                   se_column = None, se_stack = Some lines \<rparr>)"
| "parseErrorTry fo (NonError v) =
     (case coerceString (NonError v) of Inl t \<Rightarrow> Inl t | Inr s \<Rightarrow> Inr (messageOnly s))"
| "parseErrorTry fo (Uncoercible v) =
     (case coerceString (Uncoercible v) of Inl t \<Rightarrow> Inl t | Inr s \<Rightarrow> Inr (messageOnly s))"

text \<open>The \<open>catch\<close> builds its message with \<open>String(e)\<close> again, outside any \<open>try\<close>.\<close>

definition parseError :: "frameOf \<Rightarrow> thrown \<Rightarrow> thrown + SafeError" where
  "parseError fo e =
     (case parseErrorTry fo e of
        Inr r \<Rightarrow> Inr r
      | Inl _ \<Rightarrow>
          (case coerceString e of
             Inl t \<Rightarrow> Inl t
           | Inr s \<Rightarrow> Inr (messageOnly (''Unknown error ('' @ s @ '')''))))"


section \<open>The runner (runner.ts)\<close>

datatype TestEvent =
    EvStart string string
  | EvPass string string
  | EvFail string string "SafeError option"
  | EvComplete "TestResult list"

text \<open>
  The options of a run. The callback \<open>onEvent\<close> is modelled by the list of the events it is
  called with, in order. Both callbacks are taken to return: the runner calls \<open>filter\<close> and
  \<open>onEvent\<close> outside any \<open>try\<close>, so a callback that throws would end \<open>runTests\<close> with
  that exception at the point of the call, and such callbacks are left out.
\<close>

record RunOptions =
  opt_filter :: "(string \<Rightarrow> string \<Rightarrow> bool) option"
  opt_only :: "(string option \<times> string option) option"
  opt_bail :: bool

text \<open>
  The state of one run: the module state of dsl.ts (the blocks with their flags), the world
  the hooks and tests act on, the local variables \<open>results\<close> and \<open>globalBail\<close> of
  \<open>runTests\<close>, and the trace of the run. The trace lists, in the order in which they
  happen, the events given to \<open>onEvent\<close>, the invocations of hooks and test bodies (each
  \<open>await hook()\<close> and \<open>await testCase.fn()\<close>), the entries into a block
  (\<open>block.executed = true\<close>) and the markings of a block whose before-all hooks have just
  been collected (\<open>ancestor.ranBeforeAll = true\<close>). The source keeps no such trace; the
  theorems are stated on it.
  Console output is left out.
\<close>

datatype call = HookCall hookType nat | TestCall nat

datatype item = Event TestEvent | Call call | Enter bid | Mark bid

record 'w run =
  dslState :: "'w dsl"
  world :: 'w
  results :: "TestResult list"
  globalBail :: bool
  trace :: "item list"

fun eventsOf :: "item list \<Rightarrow> TestEvent list" where
  "eventsOf [] = []"
| "eventsOf (Event ev # rest) = ev # eventsOf rest"
| "eventsOf (_ # rest) = eventsOf rest"

fun callsOf :: "item list \<Rightarrow> call list" where
  "callsOf [] = []"
| "callsOf (Call c # rest) = c # callsOf rest"
| "callsOf (_ # rest) = callsOf rest"

text \<open>The events that \<open>onEvent\<close> received, and the invocations made, so far.\<close>

definition events :: "'w run \<Rightarrow> TestEvent list" where
  "events st = eventsOf (trace st)"

definition calls :: "'w run \<Rightarrow> call list" where
  "calls st = callsOf (trace st)"

text \<open>
  How a piece of the runner ends: it returns a value, an exception leaves it, or one of the
  loops over the block store did not end within its fuel.
\<close>

datatype 'a res = Ok 'a | Threw thrown | Unfinished

definition emit :: "TestEvent \<Rightarrow> 'w run \<Rightarrow> 'w run" where
  "emit ev st = st\<lparr> trace := trace st @ [Event ev] \<rparr>"

definition pushResult :: "TestResult \<Rightarrow> 'w run \<Rightarrow> 'w run" where
  "pushResult r st = st\<lparr> results := results st @ [r] \<rparr>"

definition invoke :: "call \<Rightarrow> 'w HookFn \<Rightarrow> 'w run \<Rightarrow> thrown option \<times> 'w run" where
  "invoke c f st =
     (case fn_body f (world st) of
        (w, r) \<Rightarrow> (r, st\<lparr> world := w, trace := trace st @ [Call c] \<rparr>))"

fun runHooks :: "'w HookFn list \<Rightarrow> hookType \<Rightarrow> 'w run \<Rightarrow> thrown option \<times> 'w run" where
  "runHooks [] ty st = (None, st)"
| "runHooks (hook # hooks) ty st =
     (case invoke (HookCall ty (fn_id hook)) hook st of
        (Some error, st') \<Rightarrow> (Some error, st')
      | (None, st') \<Rightarrow> runHooks hooks ty st')"

definition shouldRun :: "RunOptions \<Rightarrow> string \<Rightarrow> string \<Rightarrow> bool" where
  "shouldRun opts suitePath testName =
     ((case opt_filter opts of None \<Rightarrow> True | Some f \<Rightarrow> f suitePath testName) \<and>
      (case opt_only opts of
         None \<Rightarrow> True
       | Some (onlySuite, onlyTest) \<Rightarrow>
           (case onlySuite of None \<Rightarrow> True | Some s \<Rightarrow> s = [] \<or> s = suitePath) \<and>
           (case onlyTest of None \<Rightarrow> True | Some t \<Rightarrow> t = [] \<or> t = testName)))"

subsection \<open>One test\<close>

text \<open>The before-each chain and the test body: the values of \<open>testSuccess\<close> and \<open>testError\<close>.\<close>

definition runTestStage ::
  "frameOf \<Rightarrow> 'w TestCase \<Rightarrow> 'w run \<Rightarrow> (bool \<times> SafeError option) res \<times> 'w run" where
  "runTestStage fo testCase st =
     (case collectHooks (dslState st) (tc_describeBlock testCase) BeforeEach of
        None \<Rightarrow> (Unfinished, st)
      | Some hooks \<Rightarrow>
          (case runHooks hooks BeforeEach st of
             (Some beforeErr, st1) \<Rightarrow>
               (case parseError fo beforeErr of
                  Inl t \<Rightarrow> (Threw t, st1)
                | Inr testError \<Rightarrow> (Ok (False, Some testError), st1))
           | (None, st1) \<Rightarrow>
               (case invoke (TestCall (fn_id (tc_fn testCase))) (tc_fn testCase) st1 of
                  (None, st2) \<Rightarrow> (Ok (True, None), st2)
                | (Some error, st2) \<Rightarrow>
                    (case parseError fo error of
                       Inl t \<Rightarrow> (Threw t, st2)
                     | Inr testError \<Rightarrow> (Ok (False, Some testError), st2)))))"

text \<open>The after-each chain and its effect on \<open>testSuccess\<close> and \<open>testError\<close>.\<close>

definition runAfterEach ::
  "frameOf \<Rightarrow> 'w TestCase \<Rightarrow> bool \<times> SafeError option \<Rightarrow> 'w run
     \<Rightarrow> (bool \<times> SafeError option) res \<times> 'w run" where
  "runAfterEach fo testCase outcome st =
     (case collectHooks (dslState st) (tc_describeBlock testCase) AfterEach of
        None \<Rightarrow> (Unfinished, st)
      | Some hooks \<Rightarrow>
          (case runHooks hooks AfterEach st of
             (None, st1) \<Rightarrow> (Ok outcome, st1)
           | (Some afterErr, st1) \<Rightarrow>
               (case parseError fo afterErr of
                  Inl t \<Rightarrow> (Threw t, st1)
                | Inr afterEachError \<Rightarrow>
                    (if fst outcome then (Ok (False, Some afterEachError), st1)
                     else (Ok outcome, st1)))))"

text \<open>One iteration of the loop over \<open>block.tests\<close>, for a test that \<open>shouldRun\<close>.\<close>

definition runTestCase ::
  "frameOf \<Rightarrow> RunOptions \<Rightarrow> string \<Rightarrow> 'w TestCase \<Rightarrow> 'w run \<Rightarrow> TestStatus res \<times> 'w run" where
  "runTestCase fo opts suitePath testCase st =
     (case runTestStage fo testCase (emit (EvStart suitePath (tc_name testCase)) st) of
        (Threw t, st1) \<Rightarrow> (Threw t, st1)
      | (Unfinished, st1) \<Rightarrow> (Unfinished, st1)
      | (Ok outcome, st1) \<Rightarrow>
          (case runAfterEach fo testCase outcome st1 of
             (Threw t, st2) \<Rightarrow> (Threw t, st2)
           | (Unfinished, st2) \<Rightarrow> (Unfinished, st2)
           | (Ok (testSuccess, testError), st2) \<Rightarrow>
               (let status = (if testSuccess then Passed else Failed);
                    st3 = pushResult \<lparr> r_suite = suitePath, r_test = tc_name testCase,
                                       r_status = status, r_error = testError \<rparr> st2
                in if status = Passed
                   then (Ok status, emit (EvPass suitePath (tc_name testCase)) st3)
                   else (let st4 = emit (EvFail suitePath (tc_name testCase) testError) st3
                         in (Ok status, if opt_bail opts then st4\<lparr> globalBail := True \<rparr> else st4)))))"

fun runTestLoop ::
  "frameOf \<Rightarrow> RunOptions \<Rightarrow> string \<Rightarrow> 'w TestCase list \<Rightarrow> 'w run \<Rightarrow> unit res \<times> 'w run" where
  "runTestLoop fo opts suitePath [] st = (Ok (), st)"
| "runTestLoop fo opts suitePath (testCase # rest) st =
     (if globalBail st then (Ok (), st)
      else if \<not> shouldRun opts suitePath (tc_name testCase)
      then runTestLoop fo opts suitePath rest st
      else (case runTestCase fo opts suitePath testCase st of
              (Threw t, st') \<Rightarrow> (Threw t, st')
            | (Unfinished, st') \<Rightarrow> (Unfinished, st')
            | (Ok status, st') \<Rightarrow>
                (if status \<noteq> Passed \<and> opt_bail opts then (Ok (), st')
                 else runTestLoop fo opts suitePath rest st')))"

subsection \<open>The before-all and after-all hooks of a block\<close>

fun lineageLoop ::
  "nat \<Rightarrow> (bid \<Rightarrow> 'w DescribeBlock) \<Rightarrow> bid option \<Rightarrow> bid list \<Rightarrow> bid list option" where
  "lineageLoop n bs None lineage = Some lineage"
| "lineageLoop n bs (Some cur) lineage =
     (if ranBeforeAll (bs cur) then Some lineage
      else (case n of
              0 \<Rightarrow> None
            | Suc m \<Rightarrow> lineageLoop m bs (parent (bs cur)) (cur # lineage)))"

fun markLineage ::
  "bid list \<Rightarrow> (bid \<Rightarrow> 'w DescribeBlock) \<Rightarrow> 'w HookFn list
     \<Rightarrow> 'w HookFn list \<times> (bid \<Rightarrow> 'w DescribeBlock)" where
  "markLineage [] bs hooksToRun = (hooksToRun, bs)"
| "markLineage (ancestor # rest) bs hooksToRun =
     markLineage rest (bs(ancestor := (bs ancestor)\<lparr> ranBeforeAll := True \<rparr>))
       (hooksToRun @ beforeAllHooks (bs ancestor))"

definition hookFailure :: "string \<Rightarrow> string \<Rightarrow> SafeError \<Rightarrow> RunOptions \<Rightarrow> 'w run \<Rightarrow> 'w run" where
  "hookFailure suitePath label err opts st =
     (let st1 = pushResult \<lparr> r_suite = suitePath, r_test = label, r_status = Failed,
                              r_error = Some err \<rparr> st;
          st2 = emit (EvFail suitePath label (Some err)) st1
      in if opt_bail opts then st2\<lparr> globalBail := True \<rparr> else st2)"

definition beforeAllPhase ::
  "frameOf \<Rightarrow> RunOptions \<Rightarrow> string \<Rightarrow> bid \<Rightarrow> 'w run \<Rightarrow> bool res \<times> 'w run" where
  "beforeAllPhase fo opts suitePath block st =
     (if \<not> ranBeforeAll (blocks (dslState st) block)
      then (case lineageLoop (nextId (dslState st)) (blocks (dslState st)) (Some block) [] of
              None \<Rightarrow> (Unfinished, st)
            | Some lineage \<Rightarrow>
                (case markLineage lineage (blocks (dslState st)) [] of
                   (beforeAllHooksToRun, bs) \<Rightarrow>
                     (let st1 = st\<lparr> dslState := (dslState st)\<lparr> blocks := bs \<rparr>,
                                    trace := trace st @ map Mark lineage \<rparr>
                      in if beforeAllHooksToRun \<noteq> []
                         then (case runHooks beforeAllHooksToRun BeforeAll st1 of
                                 (None, st2) \<Rightarrow> (Ok True, st2)
                               | (Some error, st2) \<Rightarrow>
                                   (case parseError fo error of
                                      Inl t \<Rightarrow> (Threw t, st2)
                                    | Inr beforeAllError \<Rightarrow>
                                        (Ok False,
                                         hookFailure suitePath ''(beforeAll hook)''
                                           beforeAllError opts st2)))
                         else (Ok True, st1))))
      else (Ok True, st))"

definition afterAllPhase ::
  "frameOf \<Rightarrow> RunOptions \<Rightarrow> string \<Rightarrow> bid \<Rightarrow> bool \<Rightarrow> 'w run \<Rightarrow> bool res \<times> 'w run" where
  "afterAllPhase fo opts suitePath block beforeAllSuccess st =
     (if executed (blocks (dslState st) block) \<and> beforeAllSuccess
         \<and> afterAllHooks (blocks (dslState st) block) \<noteq> []
      then (case runHooks (afterAllHooks (blocks (dslState st) block)) AfterAll st of
              (None, st1) \<Rightarrow> (Ok (\<not> globalBail st1), st1)
            | (Some error, st1) \<Rightarrow>
                (case parseError fo error of
                   Inl t \<Rightarrow> (Threw t, st1)
                 | Inr afterAllError \<Rightarrow>
                     (let st2 = hookFailure suitePath ''(afterAll hook)'' afterAllError opts st1
                      in if opt_bail opts then (Ok False, st2)
                         else (Ok (\<not> globalBail st2), st2))))
      else (Ok (\<not> globalBail st), st))"

subsection \<open>The traversal\<close>

text \<open>\<open>block.executed = true\<close>\<close>

definition markExecuted :: "bid \<Rightarrow> 'w run \<Rightarrow> 'w run" where
  "markExecuted block st =
     st\<lparr> dslState := (dslState st)\<lparr> blocks := (blocks (dslState st))
            (block := (blocks (dslState st) block)\<lparr> executed := True \<rparr>) \<rparr>,
         trace := trace st @ [Enter block] \<rparr>"

fun runDescribeBlock ::
  "frameOf \<Rightarrow> RunOptions \<Rightarrow> nat \<Rightarrow> bid \<Rightarrow> 'w run \<Rightarrow> bool res \<times> 'w run"
and runChildren ::
  "frameOf \<Rightarrow> RunOptions \<Rightarrow> nat \<Rightarrow> bid list \<Rightarrow> 'w run \<Rightarrow> unit res \<times> 'w run" where
  "runDescribeBlock fo opts 0 block st = (Unfinished, st)"
| "runDescribeBlock fo opts (Suc n) block st =
     (if globalBail st then (Ok False, st)
      else (case getSuitePath (dslState st) block of
              None \<Rightarrow> (Unfinished, st)
            | Some suitePath \<Rightarrow>
                (case beforeAllPhase fo opts suitePath block (markExecuted block st) of
                   (Threw t, st1) \<Rightarrow> (Threw t, st1)
                 | (Unfinished, st1) \<Rightarrow> (Unfinished, st1)
                 | (Ok beforeAllSuccess, st1) \<Rightarrow>
                     (case (if beforeAllSuccess \<and> \<not> globalBail st1
                            then runTestLoop fo opts suitePath
                                   (tests (blocks (dslState st1) block)) st1
                            else (Ok (), st1)) of
                        (Threw t, st2) \<Rightarrow> (Threw t, st2)
                      | (Unfinished, st2) \<Rightarrow> (Unfinished, st2)
                      | (Ok _, st2) \<Rightarrow>
                          (case (if beforeAllSuccess \<and> \<not> globalBail st2
                                 then runChildren fo opts n
                                        (children (blocks (dslState st2) block)) st2
                                 else (Ok (), st2)) of
                             (Threw t, st3) \<Rightarrow> (Threw t, st3)
                           | (Unfinished, st3) \<Rightarrow> (Unfinished, st3)
                           | (Ok _, st3) \<Rightarrow>
                               afterAllPhase fo opts suitePath block beforeAllSuccess st3)))))"
| "runChildren fo opts n [] st = (Ok (), st)"
| "runChildren fo opts n (child # rest) st =
     (if globalBail st then (Ok (), st)
      else (case runDescribeBlock fo opts n child st of
              (Threw t, st') \<Rightarrow> (Threw t, st')
            | (Unfinished, st') \<Rightarrow> (Unfinished, st')
            | (Ok continueRunning, st') \<Rightarrow>
                (if \<not> continueRunning then (Ok (), st'\<lparr> globalBail := True \<rparr>)
                 else runChildren fo opts n rest st')))"


subsection \<open>runTests and getTestList\<close>

fun resetExecutionState ::
  "nat \<Rightarrow> bid \<Rightarrow> (bid \<Rightarrow> 'w DescribeBlock) \<Rightarrow> (bid \<Rightarrow> 'w DescribeBlock) option"
and resetChildren ::
  "nat \<Rightarrow> bid list \<Rightarrow> (bid \<Rightarrow> 'w DescribeBlock) \<Rightarrow> (bid \<Rightarrow> 'w DescribeBlock) option" where
  "resetExecutionState 0 block bs = None"
| "resetExecutionState (Suc n) block bs =
     resetChildren n (children (bs block))
       (bs(block := (bs block)\<lparr> ranBeforeAll := False, executed := False \<rparr>))"
| "resetChildren n [] bs = Some bs"
| "resetChildren n (child # rest) bs =
     (case resetExecutionState n child bs of
        None \<Rightarrow> None
      | Some bs' \<Rightarrow> resetChildren n rest bs')"

fun topLevelLoop ::
  "frameOf \<Rightarrow> RunOptions \<Rightarrow> nat \<Rightarrow> bid list \<Rightarrow> 'w run \<Rightarrow> unit res \<times> 'w run" where
  "topLevelLoop fo opts n [] st = (Ok (), st)"
| "topLevelLoop fo opts n (topLevelDescribe # rest) st =
     (case runDescribeBlock fo opts n topLevelDescribe st of
        (Threw t, st') \<Rightarrow> (Threw t, st')
      | (Unfinished, st') \<Rightarrow> (Unfinished, st')
      | (Ok _, st') \<Rightarrow>
          (if globalBail st' then (Ok (), st') else topLevelLoop fo opts n rest st'))"

definition startRun :: "'w dsl \<Rightarrow> 'w \<Rightarrow> 'w run" where
  "startRun d w =
     \<lparr> dslState = d, world = w, results = [], globalBail = False, trace = [] \<rparr>"

text \<open>
  \<open>runTests\<close> on the module state \<open>d\<close> and the world \<open>w\<close>; the result is the returned list of
  results together with the final state of the run.
\<close>

definition runTests ::
  "frameOf \<Rightarrow> RunOptions \<Rightarrow> 'w dsl \<Rightarrow> 'w \<Rightarrow> TestResult list res \<times> 'w run" where
  "runTests fo opts d w =
     (case resetExecutionState (Suc (nextId d)) rootDescribeBlock (blocks d) of
        None \<Rightarrow> (Unfinished, startRun d w)
      | Some bs \<Rightarrow>
          (case topLevelLoop fo opts (nextId d) (children (bs rootDescribeBlock))
                  (startRun (d\<lparr> blocks := bs \<rparr>) w) of
             (Threw t, st) \<Rightarrow> (Threw t, st)
           | (Unfinished, st) \<Rightarrow> (Unfinished, st)
           | (Ok _, st) \<Rightarrow> (Ok (results st), emit (EvComplete (results st)) st)))"

record TestMeta =
  tm_suite :: string
  tm_test :: string

fun traverse :: "nat \<Rightarrow> 'w dsl \<Rightarrow> bid \<Rightarrow> TestMeta list \<Rightarrow> TestMeta list option"
and traverseChildren :: "nat \<Rightarrow> 'w dsl \<Rightarrow> bid list \<Rightarrow> TestMeta list \<Rightarrow> TestMeta list option" where
  "traverse 0 d block list = None"
| "traverse (Suc n) d block list =
     (case getSuitePath d block of
        None \<Rightarrow> None
      | Some currentSuitePath \<Rightarrow>
          traverseChildren n d (children (blocks d block))
            (if currentSuitePath \<noteq> []
             then list @ map (\<lambda>test. \<lparr> tm_suite = currentSuitePath, tm_test = tc_name test \<rparr>)
                           (tests (blocks d block))
             else list))"
| "traverseChildren n d [] list = Some list"
| "traverseChildren n d (child # rest) list =
     (case traverse n d child list of
        None \<Rightarrow> None
      | Some list' \<Rightarrow> traverseChildren n d rest list')"

definition getTestList :: "'w dsl \<Rightarrow> TestMeta list option" where
  "getTestList d = traverse (Suc (nextId d)) d rootDescribeBlock []"


subsection \<open>Concrete registrations used below\<close>

definition defaultOptions :: RunOptions where
  "defaultOptions = \<lparr> opt_filter = None, opt_only = None, opt_bail = False \<rparr>"

text \<open>A hook or test body that pushes a string onto an array and returns.\<close>

definition pushing :: "nat \<Rightarrow> string \<Rightarrow> string list HookFn" where
  "pushing i s = HookFn i (\<lambda>w. (w @ [s], None))"

text \<open>
  \<^verbatim>\<open>describe('A', () => { beforeAll(push bA); it('t1', push t1);
     describe('B', () => { beforeAll(push bB); it('t2', push t2) }) })\<close>
\<close>

definition scenarioAB :: "string list dsl" where
  "scenarioAB =
     snd (describe ''A''
            (seq [beforeAll (pushing 1 ''bA''), it ''t1'' (pushing 2 ''t1''),
                  describe ''B''
                    (seq [beforeAll (pushing 3 ''bB''), it ''t2'' (pushing 4 ''t2'')])])
            initialDsl)"

text \<open>No line of a stack is recognised as a frame.\<close>

definition noFrames :: frameOf where "noFrames = (\<lambda>_. None)"

text \<open>A hook or test body that throws \<open>new Error(msg)\<close>.\<close>

definition failing :: "nat \<Rightarrow> string \<Rightarrow> string list HookFn" where
  "failing i msg = HookFn i (\<lambda>w. (w, Some (ErrorObj ''Error'' msg StackMissing)))"

text \<open>
  \<^verbatim>\<open>describe('A', () => { beforeAll(throws boom); afterAll(push aA); it('t1', push t1);
     describe('B', () => { it('t2', push t2) }) })\<close>
\<close>

definition scenarioBeforeAllFails :: "string list dsl" where
  "scenarioBeforeAllFails =
     snd (describe ''A''
            (seq [beforeAll (failing 1 ''boom''), afterAll (pushing 2 ''aA''),
                  it ''t1'' (pushing 3 ''t1''),
                  describe ''B'' (seq [it ''t2'' (pushing 4 ''t2'')])])
            initialDsl)"



subsection \<open>Paths in the tree\<close>


subsection \<open>What a run may report under a filter\<close>

text \<open>
  The two names under which the runner reports a failing before-all or after-all hook.
\<close>

definition isHookLabel :: "string \<Rightarrow> bool" where
  "isHookLabel t = (t = ''(beforeAll hook)'' \<or> t = ''(afterAll hook)'')"

fun eventAllowed :: "RunOptions \<Rightarrow> TestEvent \<Rightarrow> bool" where
  "eventAllowed opts (EvStart s t) = shouldRun opts s t"
| "eventAllowed opts (EvPass s t) = shouldRun opts s t"
| "eventAllowed opts (EvFail s t e) = (isHookLabel t \<or> shouldRun opts s t)"
| "eventAllowed opts (EvComplete rs) = True"

definition resultAllowed :: "RunOptions \<Rightarrow> TestResult \<Rightarrow> bool" where
  "resultAllowed opts r =
     (r_status r \<noteq> Skipped \<and> (isHookLabel (r_test r) \<or> shouldRun opts (r_suite r) (r_test r)))"

definition reportsAllowed :: "RunOptions \<Rightarrow> 'w run \<Rightarrow> bool" where
  "reportsAllowed opts st =
     (list_all (eventAllowed opts) (events st) \<and> list_all (resultAllowed opts) (results st))"

text \<open>
  \<^verbatim>\<open>describe('S', () => { it('a', push a); it('b', push b) })\<close>, run with a filter that
  rejects test b.
\<close>

definition scenarioFilter :: "string list dsl" where
  "scenarioFilter =
     snd (describe ''S'' (seq [it ''a'' (pushing 1 ''a''), it ''b'' (pushing 2 ''b'')])
            initialDsl)"

definition rejectB :: RunOptions where
  "rejectB = \<lparr> opt_filter = Some (\<lambda>s t. t \<noteq> ''b''), opt_only = None, opt_bail = False \<rparr>"

text \<open>The state in which the before-all hooks of a lineage run: every block of it is marked.\<close>

definition markedState :: "bid list \<Rightarrow> 'w run \<Rightarrow> 'w run" where
  "markedState lineage st =
     st\<lparr> dslState := (dslState st)\<lparr> blocks :=
          (\<lambda>c. if c \<in> set lineage then (blocks (dslState st) c)\<lparr> ranBeforeAll := True \<rparr>
               else blocks (dslState st) c) \<rparr>,
         trace := trace st @ map Mark lineage \<rparr>"

subsection \<open>Traces of a run that bails\<close>

fun isFail :: "item \<Rightarrow> bool" where
  "isFail (Event (EvFail s t e)) = True"
| "isFail _ = False"

text \<open>
  What may still happen once something has failed in a run that bails: after-all hooks
  are invoked, their failures are reported, and the run completes.
\<close>

fun cleanupItem :: "item \<Rightarrow> bool" where
  "cleanupItem (Call (HookCall AfterAll i)) = True"
| "cleanupItem (Event (EvFail s t e)) = True"
| "cleanupItem (Event (EvComplete rs)) = True"
| "cleanupItem _ = False"

fun quietAfterFail :: "item list \<Rightarrow> bool" where
  "quietAfterFail [] = True"
| "quietAfterFail (x # rest) = (if isFail x then list_all cleanupItem rest else quietAfterFail rest)"

definition bailInv :: "'w run \<Rightarrow> bool" where
  "bailInv st = (quietAfterFail (trace st) \<and> (list_ex isFail (trace st) \<longrightarrow> globalBail st))"

definition bailOptions :: RunOptions where
  "bailOptions = \<lparr> opt_filter = None, opt_only = None, opt_bail = True \<rparr>"

text \<open>A hook or test body that throws the value \<open>v\<close>.\<close>

definition throwing :: "nat \<Rightarrow> thrown \<Rightarrow> string list HookFn" where
  "throwing i v = HookFn i (\<lambda>w. (w, Some v))"

text \<open>
  \<^verbatim>\<open>describe('A', () => { beforeAll(push bA); afterAll(push aA); afterEach(push ae);
     it('t1', throws v); it('t2', push t2) })\<close>, run with \<open>bail: true\<close>.
\<close>

definition scenarioCleanup :: "thrown \<Rightarrow> string list dsl" where
  "scenarioCleanup v =
     snd (describe ''A''
            (seq [beforeAll (pushing 1 ''bA''), afterAll (pushing 2 ''aA''),
                  afterEach (pushing 3 ''ae''),
                  it ''t1'' (throwing 4 v), it ''t2'' (pushing 5 ''t2'')])
            initialDsl)"

subsection \<open>Well-formed registries and the schedule of before-all hooks\<close>

text \<open>
  What \<open>describe\<close> guarantees about the store: the parent of a block was allocated before
  the block, and the children of a block are blocks allocated after it.
\<close>

definition wfDsl :: "'w dsl \<Rightarrow> bool" where
  "wfDsl d =
     (0 < nextId d \<and> list_all (\<lambda>b. (case parent (blocks d b) of None \<Rightarrow> True | Some p \<Rightarrow> p < b)
                  \<and> list_all (\<lambda>c. b < c \<and> c < nextId d) (children (blocks d b)))
       [0..<nextId d])"

fun marksOf :: "item list \<Rightarrow> bid list" where
  "marksOf [] = []"
| "marksOf (Mark b # rest) = b # marksOf rest"
| "marksOf (_ # rest) = marksOf rest"

fun beforeAllCallsOf :: "item list \<Rightarrow> nat list" where
  "beforeAllCallsOf [] = []"
| "beforeAllCallsOf (Call (HookCall BeforeAll i) # rest) = i # beforeAllCallsOf rest"
| "beforeAllCallsOf (_ # rest) = beforeAllCallsOf rest"

text \<open>
  The before-all hooks that a trace has collected: the hook lists of the blocks it marks,
  in the order of the marks.
\<close>

definition scheduled :: "'w dsl \<Rightarrow> item list \<Rightarrow> nat list" where
  "scheduled d tr = concat (map (\<lambda>a. map fn_id (beforeAllHooks (blocks d a))) (marksOf tr))"

text \<open>\<open>sameTree d d'\<close>: the two stores differ in the run-time flags at most.\<close>

definition sameTree :: "'w dsl \<Rightarrow> 'w dsl \<Rightarrow> bool" where
  "sameTree d d' =
     (nextId d' = nextId d \<and>
      (\<forall>b. \<exists>r e. blocks d' b = (blocks d b)\<lparr> ranBeforeAll := r, executed := e \<rparr>))"

text \<open>
  The invariant of a run on the registry \<open>d\<close>: the store is \<open>d\<close> up to flags, no block
  is marked twice, every marked block has its flag set, and the before-all hooks invoked so
  far form a subsequence of the hooks collected at the marks.
\<close>

definition onceInv :: "'w dsl \<Rightarrow> 'w run \<Rightarrow> bool" where
  "onceInv d st =
     (sameTree d (dslState st) \<and> distinct (marksOf (trace st))
      \<and> list_all (\<lambda>a. ranBeforeAll (blocks (dslState st) a)) (marksOf (trace st))
      \<and> subseq (beforeAllCallsOf (trace st)) (scheduled d (trace st)))"

text \<open>\<open>plainFrom tr st\<close>: the trace of \<open>st\<close> continues \<open>tr\<close> without a mark and without an
  invocation of a before-all hook.\<close>

definition plainFrom :: "item list \<Rightarrow> 'w run \<Rightarrow> bool" where
  "plainFrom tr st = (\<exists>mid. trace st = tr @ mid \<and> marksOf mid = [] \<and> beforeAllCallsOf mid = [])"

subsection \<open>Sequences of hooks, as the specification describes them\<close>

text \<open>
  The specification of a hook sequence: the actions are run strictly in order, the first
  failure stops the sequence and is the failure reported, and the actions after it are not
  run. It is written down here without the loop of \<open>runHooks\<close>:
  \<open>worldAfter hs w\<close> is the world once all of \<open>hs\<close> have acted on \<open>w\<close> in order,
  \<open>outcomeAt hs w j\<close> is what the hook at position \<open>j\<close> does when the hooks before it
  have acted, and \<open>runSequence hs w\<close> gives the number of hooks that are run, the world they
  leave, and the failure reported.
\<close>

definition worldAfter :: "'w HookFn list \<Rightarrow> 'w \<Rightarrow> 'w" where
  "worldAfter hs w = foldl (\<lambda>v h. fst (fn_body h v)) w hs"

definition outcomeAt :: "'w HookFn list \<Rightarrow> 'w \<Rightarrow> nat \<Rightarrow> thrown option" where
  "outcomeAt hs w j = snd (fn_body (hs ! j) (worldAfter (take j hs) w))"

definition runSequence :: "'w HookFn list \<Rightarrow> 'w \<Rightarrow> nat \<times> 'w \<times> thrown option" where
  "runSequence hs w =
     (case List.find (\<lambda>j. outcomeAt hs w j \<noteq> None) [0..<length hs] of
        None \<Rightarrow> (length hs, worldAfter hs w, None)
      | Some j \<Rightarrow> (Suc j, worldAfter (take (Suc j) hs) w, outcomeAt hs w j))"

text \<open>
  The registration scripts: what the callbacks of \<open>describe\<close> and the top level of a test
  file do to the module state, namely calls of the DSL functions in sequence, possibly
  ended by an exception.
\<close>

inductive script :: "('w dsl \<Rightarrow> thrown option \<times> 'w dsl) \<Rightarrow> bool" where
  script_it: "script (it nm fn)"
| script_beforeAll: "script (beforeAll fn)"
| script_beforeEach: "script (beforeEach fn)"
| script_afterEach: "script (afterEach fn)"
| script_afterAll: "script (afterAll fn)"
| script_describe: "script body \<Longrightarrow> script (describe nm body)"
| script_throw: "script (\<lambda>d. (Some e, d))"
| script_done: "script (seq [])"
| script_then: "script c \<Longrightarrow> script (seq cs) \<Longrightarrow> script (seq (c # cs))"

text \<open>\<open>registered d\<close>: the store is well formed and the pointer is at an allocated block.\<close>

definition registered :: "'w dsl \<Rightarrow> bool" where
  "registered d =
     (wfDsl d \<and> (case currentDescribeBlock d of None \<Rightarrow> False | Some c \<Rightarrow> c < nextId d))"

subsection \<open>Tests registered on the root block\<close>

text \<open>The registry \<open>d\<close> with the tests of the root block replaced by \<open>ts\<close>.\<close>

definition withRootTests :: "'w TestCase list \<Rightarrow> 'w dsl \<Rightarrow> 'w dsl" where
  "withRootTests ts d =
     d\<lparr> blocks := (blocks d)(rootDescribeBlock := (blocks d rootDescribeBlock)\<lparr> tests := ts \<rparr>) \<rparr>"

text \<open>The identities of the bodies of all tests of blocks other than the root.\<close>

definition nonRootTestIds :: "'w dsl \<Rightarrow> nat list" where
  "nonRootTestIds d =
     concat (map (\<lambda>b. map (\<lambda>tc. fn_id (tc_fn tc)) (tests (blocks d b))) [1..<nextId d])"

fun testCallsOf :: "item list \<Rightarrow> nat list" where
  "testCallsOf [] = []"
| "testCallsOf (Call (TestCall i) # rest) = i # testCallsOf rest"
| "testCallsOf (_ # rest) = testCallsOf rest"

section \<open>Theorems\<close>

subsection \<open>Projections of the trace\<close>

lemma eventsOf_append [simp]: "eventsOf (xs @ ys) = eventsOf xs @ eventsOf ys"
  by (induction xs rule: eventsOf.induct) simp_all

lemma callsOf_append [simp]: "callsOf (xs @ ys) = callsOf xs @ callsOf ys"
  by (induction xs rule: callsOf.induct) simp_all

lemma eventsOf_Mark [simp]: "eventsOf (map Mark bs) = []"
  by (induction bs) simp_all

lemma callsOf_Mark [simp]: "callsOf (map Mark bs) = []"
  by (induction bs) simp_all

lemma eventsOf_trace [simp]: "eventsOf (trace st) = events st"
  by (simp add: events_def)

lemma callsOf_trace [simp]: "callsOf (trace st) = calls st"
  by (simp add: calls_def)

lemma events_update [simp]:
  "events (st\<lparr> trace := t \<rparr>) = eventsOf t"
  "events (st\<lparr> dslState := d \<rparr>) = events st"
  "events (st\<lparr> world := w \<rparr>) = events st"
  "events (st\<lparr> results := rs \<rparr>) = events st"
  "events (st\<lparr> globalBail := g \<rparr>) = events st"
  unfolding events_def by simp_all

lemma calls_update [simp]:
  "calls (st\<lparr> trace := t \<rparr>) = callsOf t"
  "calls (st\<lparr> dslState := d \<rparr>) = calls st"
  "calls (st\<lparr> world := w \<rparr>) = calls st"
  "calls (st\<lparr> results := rs \<rparr>) = calls st"
  "calls (st\<lparr> globalBail := g \<rparr>) = calls st"
  unfolding calls_def by simp_all

lemma startRun_simps [simp]:
  "events (startRun d w) = []" "calls (startRun d w) = []" "results (startRun d w) = []"
  "globalBail (startRun d w) = False" "dslState (startRun d w) = d" "trace (startRun d w) = []"
  unfolding startRun_def events_def calls_def by simp_all

text \<open>
  C5. For the registered tree with suite A (a before-all hook pushing bA, a test t1 pushing
  t1) and its child suite B (a before-all hook pushing bB, a test t2 pushing t2), a run
  pushes exactly bA, t1, bB, t2, in this order: the invocations are A's before-all, t1, B's
  before-all, t2, and both tests pass.
\<close>

theorem C5_scenario_push_order:
  "world (snd (runTests fo defaultOptions scenarioAB [])) = [''bA'', ''t1'', ''bB'', ''t2'']
   \<and> calls (snd (runTests fo defaultOptions scenarioAB []))
       = [HookCall BeforeAll 1, TestCall 2, HookCall BeforeAll 3, TestCall 4]
   \<and> fst (runTests fo defaultOptions scenarioAB [])
       = Ok [\<lparr> r_suite = ''A'', r_test = ''t1'', r_status = Passed, r_error = None \<rparr>,
             \<lparr> r_suite = ''A > B'', r_test = ''t2'', r_status = Passed, r_error = None \<rparr>]"
  by code_simp

text \<open>
  C7. The claim is that \<open>it\<close> outside every \<open>describe\<close> raises and registers nothing. In
  the code the pointer starts at the root block, so the call returns without an error and
  the test is appended to the root block's tests.
\<close>

theorem C7_it_at_top_level_registers:
  "fst (it nm fn initialDsl) = None
   \<and> tests (blocks (snd (it nm fn initialDsl)) rootDescribeBlock)
       = [\<lparr> tc_name = fst (extractTags nm), tc_fn = fn, tc_tags = snd (extractTags nm),
            tc_describeBlock = rootDescribeBlock \<rparr>]"
  by (simp add: it_def initialDsl_def createDescribeBlock_def rootDescribeBlock_def
      split: prod.split)

subsection \<open>Error normalisation\<close>

text \<open>
  C8. The claim is that \<open>parseError\<close> never raises. For a thrown value whose \<open>String(e)\<close>
  coercion throws, the \<open>try\<close> block fails in \<open>String(e)\<close> and the \<open>catch\<close> block
  evaluates \<open>String(e)\<close> again, so what the coercion throws leaves \<open>parseError\<close>; for
  \<open>Object.create(null)\<close> it is a \<open>TypeError\<close>.
\<close>

theorem C8_parseError_raises:
  "parseError fo (Uncoercible t) = Inl t
   \<and> parseError fo nullPrototypeObject
       = Inl (ErrorObj ''TypeError'' ''Cannot convert object to primitive value'' StackMissing)"
  by (simp add: parseError_def nullPrototypeObject_def)

text \<open>Whenever the coercion returns, so does \<open>parseError\<close>.\<close>

lemma parseError_returns:
  "coerceString e = Inr s \<Longrightarrow> \<exists>r. parseError fo e = Inr r"
  by (cases "parseErrorTry fo e") (auto simp: parseError_def)

subsection \<open>Hook sequences and the before-all phase\<close>

lemma runHooks_frame:
  "dslState (snd (runHooks hs ty st)) = dslState st
   \<and> results (snd (runHooks hs ty st)) = results st
   \<and> events (snd (runHooks hs ty st)) = events st
   \<and> globalBail (snd (runHooks hs ty st)) = globalBail st"
  by (induction hs ty st rule: runHooks.induct)
     (auto simp: invoke_def split: prod.splits option.splits)



lemma markLineage_snd:
  "snd (markLineage lin bs hs) c
     = (if c \<in> set lin then (bs c)\<lparr> ranBeforeAll := True \<rparr> else bs c)"
  by (induction lin arbitrary: bs hs) simp_all

lemma markLineage_fst:
  "fst (markLineage lin bs hs) = hs @ concat (map (\<lambda>b. beforeAllHooks (bs b)) lin)"
proof (induction lin arbitrary: bs hs)
  case Nil
  then show ?case by simp
next
  case (Cons a lin)
  have eq: "(\<lambda>b. beforeAllHooks (if b = a then (bs a)\<lparr> ranBeforeAll := True \<rparr> else bs b))
        = (\<lambda>b. beforeAllHooks (bs b))"
    by (rule ext) simp
  show ?case using Cons by (simp add: eq)
qed


lemma hookFailure_simps:
  "calls (hookFailure sp l e opts st) = calls st"
  "dslState (hookFailure sp l e opts st) = dslState st"
  "world (hookFailure sp l e opts st) = world st"
  "events (hookFailure sp l e opts st) = events st @ [EvFail sp l (Some e)]"
  "results (hookFailure sp l e opts st)
     = results st @ [\<lparr> r_suite = sp, r_test = l, r_status = Failed, r_error = Some e \<rparr>]"
  "globalBail (hookFailure sp l e opts st) = (opt_bail opts \<or> globalBail st)"
  by (simp_all add: hookFailure_def pushResult_def emit_def Let_def)





subsection \<open>One test: precedence of failures\<close>

lemma emit_simps:
  "dslState (emit ev st) = dslState st" "calls (emit ev st) = calls st"
  "world (emit ev st) = world st" "results (emit ev st) = results st"
  "globalBail (emit ev st) = globalBail st" "events (emit ev st) = events st @ [ev]"
  by (simp_all add: emit_def)

lemma pushResult_simps:
  "dslState (pushResult r st) = dslState st" "calls (pushResult r st) = calls st"
  "world (pushResult r st) = world st" "results (pushResult r st) = results st @ [r]"
  "globalBail (pushResult r st) = globalBail st" "events (pushResult r st) = events st"
  by (simp_all add: pushResult_def)

lemma runAfterEach_snd:
  assumes "collectHooks (dslState st) (tc_describeBlock tc) AfterEach = Some aes"
  shows "snd (runAfterEach fo tc outcome st) = snd (runHooks aes AfterEach st)"
  using assms
  by (cases "runHooks aes AfterEach st")
     (simp add: runAfterEach_def split: option.splits sum.splits)

lemma runTestStage_dsl:
  "dslState (snd (runTestStage fo tc st)) = dslState st"
proof (cases "collectHooks (dslState st) (tc_describeBlock tc) BeforeEach")
  case None
  then show ?thesis by (simp add: runTestStage_def)
next
  case (Some bes)
  obtain r st1 where rh: "runHooks bes BeforeEach st = (r, st1)"
    by (cases "runHooks bes BeforeEach st")
  have d: "dslState st1 = dslState st"
    using runHooks_frame [of bes BeforeEach st] rh by simp
  show ?thesis using Some rh d
    by (auto simp: runTestStage_def invoke_def split: option.splits sum.splits prod.splits)
qed


subsection \<open>runHooks meets the specification of a hook sequence\<close>






subsection \<open>One test, in full\<close>


lemma runSequence_no_failure:
  assumes "\<forall>j<length hs. outcomeAt hs w j = None"
  shows "runSequence hs w = (length hs, worldAfter hs w, None)"
proof -
  have "List.find (\<lambda>j. outcomeAt hs w j \<noteq> None) [0..<length hs] = None"
    using assms by (simp add: find_None_iff)
  then show ?thesis by (simp add: runSequence_def)
qed

lemma runSequence_first_failure:
  assumes "j < length hs" and "outcomeAt hs w j = Some e"
    and "\<forall>i<j. outcomeAt hs w i = None"
  shows "runSequence hs w = (Suc j, worldAfter (take (Suc j) hs) w, Some e)"
proof -
  have "List.find (\<lambda>j. outcomeAt hs w j \<noteq> None) [0..<length hs] = Some j"
    unfolding find_Some_iff using assms by (intro exI [of _ j]) simp
  then show ?thesis using assms(2) by (simp add: runSequence_def)
qed



subsection \<open>The hook collector\<close>




subsection \<open>Invariants of the traversal\<close>

text \<open>
  A property of the run state that every phase of a visit keeps is kept by the whole
  traversal. \<open>Q\<close> is a property of the blocks visited that passes from a block to its
  children.
\<close>

lemma runTestLoop_invariant:
  assumes tc: "\<And>tc st. P st \<Longrightarrow> \<not> globalBail st \<Longrightarrow> shouldRun opts sp (tc_name tc) \<Longrightarrow>
                 P (snd (runTestCase fo opts sp tc st))"
  shows "P st \<Longrightarrow> P (snd (runTestLoop fo opts sp ts st))"
proof (induction ts arbitrary: st)
  case Nil
  then show ?case by simp
next
  case (Cons t ts)
  obtain r st' where r: "runTestCase fo opts sp t st = (r, st')"
    by (cases "runTestCase fo opts sp t st")
  show ?case
  proof (cases "\<not> globalBail st \<and> shouldRun opts sp (tc_name t)")
    case True
    then have p': "P st'" using tc [OF Cons.prems, of t] r by simp
    then have "P (snd (runTestLoop fo opts sp ts st'))" by (rule Cons.IH)
    with True r p' show ?thesis by (simp split: res.splits)
  next
    case False
    with Cons show ?thesis by auto
  qed
qed

lemma runDescribeBlock_unfold:
  assumes "\<not> globalBail st" and "getSuitePath (dslState st) b = Some sp"
    and "beforeAllPhase fo opts sp b (markExecuted b st) = (Ok ok, st1)"
    and "(if ok \<and> \<not> globalBail st1
          then runTestLoop fo opts sp (tests (blocks (dslState st1) b)) st1
          else (Ok (), st1)) = (r2, st2)"
    and "(if ok \<and> \<not> globalBail st2
          then runChildren fo opts n (children (blocks (dslState st2) b)) st2
          else (Ok (), st2)) = (r3, st3)"
  shows "runDescribeBlock fo opts (Suc n) b st
     = (case r2 of
          Ok _ \<Rightarrow> (case r3 of
                     Ok _ \<Rightarrow> afterAllPhase fo opts sp b ok st3
                   | Threw t \<Rightarrow> (Threw t, st3)
                   | Unfinished \<Rightarrow> (Unfinished, st3))
        | Threw t \<Rightarrow> (Threw t, st2)
        | Unfinished \<Rightarrow> (Unfinished, st2))"
  by (subst runDescribeBlock.simps)
     (simp only: assms if_False option.case prod.case res.case)

lemma runner_invariant:
  fixes P :: "'w run \<Rightarrow> bool" and Q :: "bid \<Rightarrow> bool"
  assumes ex: "\<And>b st. P st \<Longrightarrow> Q b \<Longrightarrow> \<not> globalBail st \<Longrightarrow> P (markExecuted b st)"
    and ba: "\<And>sp b st. P st \<Longrightarrow> Q b \<Longrightarrow> \<not> globalBail st \<Longrightarrow>
               P (snd (beforeAllPhase fo opts sp b st))"
    and tl: "\<And>sp b st. P st \<Longrightarrow> Q b \<Longrightarrow>
               P (snd (runTestLoop fo opts sp (tests (blocks (dslState st) b)) st))"
    and aa: "\<And>sp b s st. P st \<Longrightarrow> Q b \<Longrightarrow> P (snd (afterAllPhase fo opts sp b s st))"
    and gb: "\<And>st. P st \<Longrightarrow> P (st\<lparr> globalBail := True \<rparr>)"
    and ch: "\<And>b c st. P st \<Longrightarrow> Q b \<Longrightarrow> c \<in> set (children (blocks (dslState st) b)) \<Longrightarrow> Q c"
  shows "P st \<Longrightarrow> Q b \<Longrightarrow> P (snd (runDescribeBlock fo opts n b st))"
proof (induction n arbitrary: st b)
  case 0
  then show ?case by simp
next
  case (Suc n)
  have kids: "P s \<Longrightarrow> \<forall>c\<in>set cs. Q c \<Longrightarrow> P (snd (runChildren fo opts n cs s))" for cs s
  proof (induction cs arbitrary: s)
    case Nil
    then show ?case by simp
  next
    case (Cons c cs)
    obtain r s' where r: "runDescribeBlock fo opts n c s = (r, s')"
      by (cases "runDescribeBlock fo opts n c s")
    have p': "P s'" using Suc.IH [of s c] Cons.prems r by simp
    then have "P (snd (runChildren fo opts n cs s'))" using Cons by simp
    with Cons.prems r p' gb [OF p'] show ?case by (simp split: res.splits)
  qed
  show ?case
  proof (cases "globalBail st")
    case True
    with Suc.prems show ?thesis by simp
  next
    case nb: False
    show ?thesis
    proof (cases "getSuitePath (dslState st) b")
      case None
      with nb Suc.prems show ?thesis by simp
    next
      case (Some sp)
      obtain r1 st1 where b1: "beforeAllPhase fo opts sp b (markExecuted b st) = (r1, st1)"
        by (cases "beforeAllPhase fo opts sp b (markExecuted b st)")
      have "\<not> globalBail (markExecuted b st)"
        using nb by (simp add: markExecuted_def)
      then have p1: "P st1"
        using ba [OF ex [OF Suc.prems nb] Suc.prems(2), of sp] b1 by simp
      show ?thesis
      proof (cases r1)
        case (Ok ok)
        obtain r2 st2 where b2: "(if ok \<and> \<not> globalBail st1
              then runTestLoop fo opts sp (tests (blocks (dslState st1) b)) st1
              else (Ok (), st1)) = (r2, st2)"
          by (cases "if ok \<and> \<not> globalBail st1
              then runTestLoop fo opts sp (tests (blocks (dslState st1) b)) st1
              else (Ok (), st1)")
        have p2: "P st2" using tl [OF p1 Suc.prems(2), of sp] p1 b2
          by (auto split: if_splits)
        obtain r3 st3 where b3: "(if ok \<and> \<not> globalBail st2
              then runChildren fo opts n (children (blocks (dslState st2) b)) st2
              else (Ok (), st2)) = (r3, st3)"
          by (cases "if ok \<and> \<not> globalBail st2
              then runChildren fo opts n (children (blocks (dslState st2) b)) st2
              else (Ok (), st2)")
        have "\<forall>c\<in>set (children (blocks (dslState st2) b)). Q c"
          using ch [OF p2 Suc.prems(2)] by blast
        then have "P (snd (runChildren fo opts n (children (blocks (dslState st2) b)) st2))"
          by (rule kids [OF p2])
        then have p3: "P st3" using p2 b3
          by (auto split: if_splits)
        have p4: "P (snd (afterAllPhase fo opts sp b ok st3))"
          by (rule aa [OF p3 Suc.prems(2)])
        show ?thesis
          unfolding runDescribeBlock_unfold [OF nb Some b1 [unfolded Ok] b2 b3]
          using p2 p3 p4 by (simp split: res.splits)
      next
        case (Threw x)
        with nb Some b1 p1 show ?thesis by simp
      next
        case Unfinished
        with nb Some b1 p1 show ?thesis by simp
      qed
    qed
  qed
qed

lemma topLevelLoop_invariant:
  assumes rd: "\<And>b st. P st \<Longrightarrow> Q b \<Longrightarrow> P (snd (runDescribeBlock fo opts n b st))"
  shows "P st \<Longrightarrow> \<forall>b\<in>set bs. Q b \<Longrightarrow> P (snd (topLevelLoop fo opts n bs st))"
proof (induction bs arbitrary: st)
  case Nil
  then show ?case by simp
next
  case (Cons b bs)
  obtain r st' where r: "runDescribeBlock fo opts n b st = (r, st')"
    by (cases "runDescribeBlock fo opts n b st")
  have p': "P st'" using rd [of st b] Cons.prems r by simp
  then have "P (snd (topLevelLoop fo opts n bs st'))" using Cons by simp
  with r p' show ?case by (simp split: res.splits)
qed

subsection \<open>The before-all phase, step by step\<close>

lemma beforeAllPhase_skip:
  "ranBeforeAll (blocks (dslState st) b) \<Longrightarrow> beforeAllPhase fo opts sp b st = (Ok True, st)"
  by (simp add: beforeAllPhase_def)

lemma beforeAllPhase_stall:
  "\<not> ranBeforeAll (blocks (dslState st) b) \<Longrightarrow>
   lineageLoop (nextId (dslState st)) (blocks (dslState st)) (Some b) [] = None \<Longrightarrow>
   beforeAllPhase fo opts sp b st = (Unfinished, st)"
  by (simp add: beforeAllPhase_def)

lemma beforeAllPhase_run:
  assumes "\<not> ranBeforeAll (blocks (dslState st) b)"
    and "lineageLoop (nextId (dslState st)) (blocks (dslState st)) (Some b) [] = Some lin"
  shows "beforeAllPhase fo opts sp b st
     = (case runHooks (concat (map (\<lambda>a. beforeAllHooks (blocks (dslState st) a)) lin))
               BeforeAll (markedState lin st) of
          (None, st2) \<Rightarrow> (Ok True, st2)
        | (Some err, st2) \<Rightarrow>
            (case parseError fo err of
               Inl t \<Rightarrow> (Threw t, st2)
             | Inr e \<Rightarrow> (Ok False, hookFailure sp ''(beforeAll hook)'' e opts st2)))"
proof -
  obtain hs bs where ml: "markLineage lin (blocks (dslState st)) [] = (hs, bs)"
    by (cases "markLineage lin (blocks (dslState st)) []")
  have hs: "hs = concat (map (\<lambda>a. beforeAllHooks (blocks (dslState st) a)) lin)"
    using markLineage_fst [of lin "blocks (dslState st)" "[]"] ml by simp
  have "bs = (\<lambda>c. if c \<in> set lin then (blocks (dslState st) c)\<lparr> ranBeforeAll := True \<rparr>
               else blocks (dslState st) c)"
    using markLineage_snd [of lin "blocks (dslState st)" "[]"] ml by (intro ext) simp
  then have st1: "st\<lparr> dslState := (dslState st)\<lparr> blocks := bs \<rparr>,
                     trace := trace st @ map Mark lin \<rparr> = markedState lin st"
    by (simp add: markedState_def)
  have eq: "concat (map (\<lambda>a. beforeAllHooks (blocks (dslState st) a)) lin) = hs"
    using hs by simp
  have "beforeAllPhase fo opts sp b st
     = (case runHooks hs BeforeAll (markedState lin st) of
          (None, st2) \<Rightarrow> (Ok True, st2)
        | (Some err, st2) \<Rightarrow>
            (case parseError fo err of
               Inl t \<Rightarrow> (Threw t, st2)
             | Inr e \<Rightarrow> (Ok False, hookFailure sp ''(beforeAll hook)'' e opts st2)))"
  proof (cases "hs = []")
    case True
    with assms ml st1 show ?thesis by (simp add: beforeAllPhase_def)
  next
    case False
    with assms ml st1 show ?thesis
      by (simp add: beforeAllPhase_def split: prod.splits option.splits sum.splits)
  qed
  then show ?thesis by (simp only: eq)
qed

lemma markedState_simps:
  "results (markedState lin st) = results st" "events (markedState lin st) = events st"
  "calls (markedState lin st) = calls st" "world (markedState lin st) = world st"
  "globalBail (markedState lin st) = globalBail st"
  "nextId (dslState (markedState lin st)) = nextId (dslState st)"
  "blocks (dslState (markedState lin st)) c
     = (if c \<in> set lin then (blocks (dslState st) c)\<lparr> ranBeforeAll := True \<rparr>
        else blocks (dslState st) c)"
  by (simp_all add: markedState_def)

subsection \<open>Filtered tests leave no trace\<close>

lemma invoke_frame:
  "dslState (snd (invoke c f st)) = dslState st"
  "results (snd (invoke c f st)) = results st"
  "events (snd (invoke c f st)) = events st"
  "globalBail (snd (invoke c f st)) = globalBail st"
  "calls (snd (invoke c f st)) = calls st @ [c]"
  by (simp_all add: invoke_def split: prod.splits)

lemma runTestStage_frame:
  "dslState (snd (runTestStage fo tc st)) = dslState st
   \<and> results (snd (runTestStage fo tc st)) = results st
   \<and> events (snd (runTestStage fo tc st)) = events st
   \<and> globalBail (snd (runTestStage fo tc st)) = globalBail st"
proof (cases "collectHooks (dslState st) (tc_describeBlock tc) BeforeEach")
  case None
  then show ?thesis by (simp add: runTestStage_def)
next
  case (Some bes)
  obtain r st1 where rh: "runHooks bes BeforeEach st = (r, st1)"
    by (cases "runHooks bes BeforeEach st")
  obtain r2 st2 where iv: "invoke (TestCall (fn_id (tc_fn tc))) (tc_fn tc) st1 = (r2, st2)"
    by (cases "invoke (TestCall (fn_id (tc_fn tc))) (tc_fn tc) st1")
  have 1: "dslState st1 = dslState st" "results st1 = results st" "events st1 = events st"
    "globalBail st1 = globalBail st"
    using runHooks_frame [of bes BeforeEach st] rh by simp_all
  have 2: "dslState st2 = dslState st1" "results st2 = results st1" "events st2 = events st1"
    "globalBail st2 = globalBail st1"
    using invoke_frame [of "TestCall (fn_id (tc_fn tc))" "tc_fn tc" st1] iv by simp_all
  show ?thesis using Some rh iv 1 2
    by (simp add: runTestStage_def split: option.splits sum.splits)
qed

lemma runAfterEach_frame:
  "dslState (snd (runAfterEach fo tc outcome st)) = dslState st
   \<and> results (snd (runAfterEach fo tc outcome st)) = results st
   \<and> events (snd (runAfterEach fo tc outcome st)) = events st
   \<and> globalBail (snd (runAfterEach fo tc outcome st)) = globalBail st"
proof (cases "collectHooks (dslState st) (tc_describeBlock tc) AfterEach")
  case None
  then show ?thesis by (simp add: runAfterEach_def)
next
  case (Some aes)
  show ?thesis
    using runAfterEach_snd [OF Some, of fo outcome] runHooks_frame [of aes AfterEach st]
    by simp
qed

text \<open>The events and results one test adds.\<close>

lemma runTestCase_reports:
  "\<exists>evs rs. events (snd (runTestCase fo opts sp tc st)) = events st @ EvStart sp (tc_name tc) # evs
     \<and> results (snd (runTestCase fo opts sp tc st)) = results st @ rs
     \<and> (\<forall>ev\<in>set evs. (\<exists>e. ev = EvFail sp (tc_name tc) e) \<or> ev = EvPass sp (tc_name tc))
     \<and> (\<forall>r\<in>set rs. r_suite r = sp \<and> r_test r = tc_name tc \<and> r_status r \<noteq> Skipped)"
proof -
  define st0 where "st0 = emit (EvStart sp (tc_name tc)) st"
  obtain r1 st1 where s1: "runTestStage fo tc st0 = (r1, st1)"
    by (cases "runTestStage fo tc st0")
  have f1: "results st1 = results st" "events st1 = events st @ [EvStart sp (tc_name tc)]"
    using runTestStage_frame [of fo tc st0] s1 by (simp_all add: st0_def emit_simps)
  show ?thesis
  proof (cases r1)
    case (Ok outcome)
    obtain r2 st2 where s2: "runAfterEach fo tc outcome st1 = (r2, st2)"
      by (cases "runAfterEach fo tc outcome st1")
    have f2: "results st2 = results st" "events st2 = events st @ [EvStart sp (tc_name tc)]"
      using runAfterEach_frame [of fo tc outcome st1] s2 f1 by simp_all
    show ?thesis
      using s1 Ok s2 f2
      by (cases r2)
         (auto simp: runTestCase_def st0_def [symmetric] Let_def emit_simps pushResult_simps)
  next
    case (Threw x)
    with s1 f1 show ?thesis by (simp add: runTestCase_def st0_def [symmetric])
  next
    case Unfinished
    with s1 f1 show ?thesis by (simp add: runTestCase_def st0_def [symmetric])
  qed
qed

lemma runTestCase_reportsAllowed:
  assumes "reportsAllowed opts st" and "shouldRun opts sp (tc_name tc)"
  shows "reportsAllowed opts (snd (runTestCase fo opts sp tc st))"
proof -
  from runTestCase_reports [of fo opts sp tc st] obtain evs rs where
    e: "events (snd (runTestCase fo opts sp tc st)) = events st @ EvStart sp (tc_name tc) # evs"
    and r: "results (snd (runTestCase fo opts sp tc st)) = results st @ rs"
    and ev: "\<forall>ev\<in>set evs. (\<exists>e. ev = EvFail sp (tc_name tc) e) \<or> ev = EvPass sp (tc_name tc)"
    and rs: "\<forall>r\<in>set rs. r_suite r = sp \<and> r_test r = tc_name tc \<and> r_status r \<noteq> Skipped"
    by blast
  have "list_all (eventAllowed opts) evs"
    using ev assms(2) by (auto simp: list_all_iff)
  moreover have "list_all (resultAllowed opts) rs"
    using rs assms(2) by (auto simp: list_all_iff resultAllowed_def)
  ultimately show ?thesis
    using assms by (simp add: reportsAllowed_def e r)
qed

lemma hookFailure_reportsAllowed:
  assumes "reportsAllowed opts' st" and "isHookLabel l"
  shows "reportsAllowed opts' (hookFailure sp l e opts st)"
  using assms by (simp add: reportsAllowed_def hookFailure_simps resultAllowed_def)

lemma beforeAllPhase_reportsAllowed:
  assumes "reportsAllowed opts st"
  shows "reportsAllowed opts (snd (beforeAllPhase fo opts sp b st))"
proof (cases "ranBeforeAll (blocks (dslState st) b)")
  case True
  with assms show ?thesis by (simp add: beforeAllPhase_skip)
next
  case nr: False
  show ?thesis
  proof (cases "lineageLoop (nextId (dslState st)) (blocks (dslState st)) (Some b) []")
    case None
    with nr assms show ?thesis by (simp add: beforeAllPhase_stall)
  next
    case (Some lin)
    let ?hs = "concat (map (\<lambda>a. beforeAllHooks (blocks (dslState st) a)) lin)"
    obtain r st2 where rh: "runHooks ?hs BeforeAll (markedState lin st) = (r, st2)"
      by (cases "runHooks ?hs BeforeAll (markedState lin st)")
    have p2: "reportsAllowed opts st2"
      using assms runHooks_frame [of ?hs BeforeAll "markedState lin st"] rh
      by (simp add: reportsAllowed_def markedState_simps)
    have lab: "isHookLabel ''(beforeAll hook)''" by (simp add: isHookLabel_def)
    show ?thesis
      unfolding beforeAllPhase_run [OF nr Some] rh
      using p2 hookFailure_reportsAllowed [OF p2 lab]
      by (simp split: option.splits sum.splits)
  qed
qed

lemma afterAllPhase_reportsAllowed:
  assumes "reportsAllowed opts st"
  shows "reportsAllowed opts (snd (afterAllPhase fo opts sp b ok st))"
proof -
  let ?hs = "afterAllHooks (blocks (dslState st) b)"
  obtain r st1 where rh: "runHooks ?hs AfterAll st = (r, st1)"
    by (cases "runHooks ?hs AfterAll st")
  have p1: "reportsAllowed opts st1"
    using assms runHooks_frame [of ?hs AfterAll st] rh by (simp add: reportsAllowed_def)
  have lab: "isHookLabel ''(afterAll hook)''" by (simp add: isHookLabel_def)
  show ?thesis
    using assms rh p1 hookFailure_reportsAllowed [OF p1 lab]
    by (simp add: afterAllPhase_def Let_def split: option.splits sum.splits)
qed

lemma runDescribeBlock_reportsAllowed:
  "reportsAllowed opts st \<Longrightarrow> reportsAllowed opts (snd (runDescribeBlock fo opts n b st))"
proof (rule runner_invariant [where P = "reportsAllowed opts" and Q = "\<lambda>_. True"])
  show "reportsAllowed opts (snd (runTestLoop fo opts sp ts s))" if "reportsAllowed opts s"
    for sp ts s
    using that by (rule runTestLoop_invariant [rotated]) (rule runTestCase_reportsAllowed)
next
  show "reportsAllowed opts (markExecuted c s)" if "reportsAllowed opts s" for c s
    using that by (simp add: reportsAllowed_def markExecuted_def)
next
  show "reportsAllowed opts (s\<lparr> globalBail := True \<rparr>)" if "reportsAllowed opts s" for s
    using that by (simp add: reportsAllowed_def)
qed (simp_all add: beforeAllPhase_reportsAllowed afterAllPhase_reportsAllowed)

lemma runTests_reportsAllowed:
  "reportsAllowed opts (snd (runTests fo opts d w))"
proof (cases "resetExecutionState (Suc (nextId d)) rootDescribeBlock (blocks d)")
  case None
  then show ?thesis by (simp add: runTests_def reportsAllowed_def)
next
  case (Some bs)
  let ?st = "startRun (d\<lparr> blocks := bs \<rparr>) w"
  have "reportsAllowed opts ?st" by (simp add: reportsAllowed_def)
  then have "reportsAllowed opts
      (snd (topLevelLoop fo opts (nextId d) (children (bs rootDescribeBlock)) ?st))"
    by (rule topLevelLoop_invariant [where Q = "\<lambda>_. True", rotated])
       (simp_all add: runDescribeBlock_reportsAllowed)
  then show ?thesis
    using Some
    by (auto simp: runTests_def reportsAllowed_def emit_simps split: prod.splits res.splits)
qed


text \<open>
  C9. A test that the filter rejects or the \<open>only\<close> restriction does not match gets no
  start or pass event, and (when it is not named like one of the two hook reports) no fail
  event and no result; no result of a run has the status skipped. The list that \<open>runTests\<close>
  returns is the list of results of the final state.
\<close>

theorem C9_filtered_tests_unreported:
  assumes "\<not> shouldRun opts s t"
  shows "EvStart s t \<notin> set (events (snd (runTests fo opts d w)))
     \<and> EvPass s t \<notin> set (events (snd (runTests fo opts d w)))
     \<and> (\<not> isHookLabel t \<longrightarrow>
          (\<forall>e. EvFail s t e \<notin> set (events (snd (runTests fo opts d w))))
          \<and> (\<forall>r\<in>set (results (snd (runTests fo opts d w))). \<not> (r_suite r = s \<and> r_test r = t)))
     \<and> (\<forall>r\<in>set (results (snd (runTests fo opts d w))). r_status r \<noteq> Skipped)
     \<and> (\<forall>rs. fst (runTests fo opts d w) = Ok rs \<longrightarrow> rs = results (snd (runTests fo opts d w)))"
proof -
  let ?fin = "snd (runTests fo opts d w)"
  have inv: "reportsAllowed opts ?fin" by (rule runTests_reportsAllowed)
  then have ev: "\<And>ev. ev \<in> set (events ?fin) \<Longrightarrow> eventAllowed opts ev"
    and rs: "\<And>r. r \<in> set (results ?fin) \<Longrightarrow> resultAllowed opts r"
    by (simp_all add: reportsAllowed_def list_all_iff)
  have 1: "EvStart s t \<notin> set (events ?fin)" using ev [of "EvStart s t"] assms by auto
  have 2: "EvPass s t \<notin> set (events ?fin)" using ev [of "EvPass s t"] assms by auto
  have 3: "EvFail s t e \<notin> set (events ?fin)" if "\<not> isHookLabel t" for e
    using ev [of "EvFail s t e"] assms that by auto
  have 4: "\<not> (r_suite r = s \<and> r_test r = t)" if "\<not> isHookLabel t" "r \<in> set (results ?fin)" for r
    using rs [OF that(2)] assms that(1) by (auto simp: resultAllowed_def)
  have 5: "r_status r \<noteq> Skipped" if "r \<in> set (results ?fin)" for r
    using rs [OF that] by (simp add: resultAllowed_def)
  have 6: "rs = results ?fin" if "fst (runTests fo opts d w) = Ok rs" for rs
    using that
    by (auto simp: runTests_def emit_simps split: option.splits prod.splits res.splits)
  from 1 2 3 4 5 6 show ?thesis by blast
qed

theorem C9_filtered_tests_unreported_witness:
  "\<not> shouldRun rejectB ''S'' ''b''
   \<and> EvStart ''S'' ''b'' \<notin> set (events (snd (runTests noFrames rejectB scenarioFilter [])))
   \<and> map r_test (results (snd (runTests noFrames rejectB scenarioFilter []))) = [''a'']"
proof -
  have h: "\<not> shouldRun rejectB ''S'' ''b''" by code_simp
  have r: "map r_test (results (snd (runTests noFrames rejectB scenarioFilter []))) = [''a'']"
    by code_simp
  from C9_filtered_tests_unreported [OF h, of noFrames scenarioFilter "[]"] h r
  show ?thesis by blast
qed

subsection \<open>Bail\<close>

lemma quietAfterFail_append:
  "quietAfterFail (tr @ xs)
     = (if list_ex isFail tr then quietAfterFail tr \<and> list_all cleanupItem xs
        else quietAfterFail xs)"
  by (induction tr) auto

lemma quietAfterFail_no_fail:
  "\<not> list_ex isFail tr \<Longrightarrow> quietAfterFail tr"
  by (induction tr) auto

lemma runHooks_trace:
  "\<exists>k. trace (snd (runHooks hs ty st))
        = trace st @ map (\<lambda>h. Call (HookCall ty (fn_id h))) (take k hs)"
proof (induction hs ty st rule: runHooks.induct)
  case (1 ty st)
  then show ?case by simp
next
  case (2 hook hooks ty st)
  obtain r st' where inv: "invoke (HookCall ty (fn_id hook)) hook st = (r, st')"
    by (cases "invoke (HookCall ty (fn_id hook)) hook st")
  have c: "trace st' = trace st @ [Call (HookCall ty (fn_id hook))]"
    using inv by (auto simp: invoke_def split: prod.splits)
  show ?case
  proof (cases r)
    case None
    with 2 inv obtain k where
      "trace (snd (runHooks hooks ty st'))
         = trace st' @ map (\<lambda>h. Call (HookCall ty (fn_id h))) (take k hooks)"
      by auto
    then have "trace (snd (runHooks (hook # hooks) ty st))
        = trace st @ map (\<lambda>h. Call (HookCall ty (fn_id h))) (take (Suc k) (hook # hooks))"
      using inv None c by simp
    then show ?thesis by blast
  next
    case (Some e)
    then have "trace (snd (runHooks (hook # hooks) ty st))
        = trace st @ map (\<lambda>h. Call (HookCall ty (fn_id h))) (take (Suc 0) (hook # hooks))"
      using inv c by simp
    then show ?thesis by blast
  qed
qed

text \<open>A hook sequence keeps the invariant: before a failure always, after one when it is
  an after-all sequence.\<close>

lemma runHooks_bailInv:
  assumes "bailInv st" and "\<not> globalBail st \<or> ty = AfterAll"
  shows "bailInv (snd (runHooks hs ty st))"
    and "list_ex isFail (trace (snd (runHooks hs ty st))) = list_ex isFail (trace st)"
proof -
  obtain k where t: "trace (snd (runHooks hs ty st))
      = trace st @ map (\<lambda>h. Call (HookCall ty (fn_id h))) (take k hs)"
    using runHooks_trace by blast
  have nf: "\<not> list_ex isFail (map (\<lambda>h. Call (HookCall ty (fn_id h))) (take k hs))"
    by (simp add: list_ex_iff)
  show f: "list_ex isFail (trace (snd (runHooks hs ty st))) = list_ex isFail (trace st)"
    using nf by (simp add: t)
  have g: "globalBail (snd (runHooks hs ty st)) = globalBail st"
    using runHooks_frame by blast
  have q: "quietAfterFail (map (\<lambda>h. Call (HookCall ty (fn_id h))) (take k hs))"
    using nf by (rule quietAfterFail_no_fail)
  have "ty = AfterAll \<Longrightarrow> list_all cleanupItem (map (\<lambda>h. Call (HookCall ty (fn_id h))) (take k hs))"
    by (simp add: list_all_iff)
  then show "bailInv (snd (runHooks hs ty st))"
    using assms q f g unfolding bailInv_def t quietAfterFail_append by auto
qed

lemma hookFailure_bailInv:
  assumes "bailInv st" and "opt_bail opts"
  shows "bailInv (hookFailure sp l e opts st)"
  using assms
  by (auto simp: bailInv_def hookFailure_def Let_def pushResult_def emit_def
      quietAfterFail_append quietAfterFail_no_fail)

lemma extend_bailInv:
  assumes "bailInv st" and "\<not> globalBail st" and "\<not> isFail x"
  shows "bailInv (st\<lparr> trace := trace st @ [x] \<rparr>)"
  using assms by (auto simp: bailInv_def quietAfterFail_append)

lemma markExecuted_bailInv:
  "bailInv st \<Longrightarrow> \<not> globalBail st \<Longrightarrow> bailInv (markExecuted b st)"
  by (auto simp: bailInv_def markExecuted_def quietAfterFail_append)

lemma beforeAllPhase_bailInv:
  assumes "bailInv st" and "\<not> globalBail st" and "opt_bail opts"
  shows "bailInv (snd (beforeAllPhase fo opts sp b st))"
proof (cases "ranBeforeAll (blocks (dslState st) b)")
  case True
  with assms show ?thesis by (simp add: beforeAllPhase_skip)
next
  case nr: False
  show ?thesis
  proof (cases "lineageLoop (nextId (dslState st)) (blocks (dslState st)) (Some b) []")
    case None
    with nr assms show ?thesis by (simp add: beforeAllPhase_stall)
  next
    case (Some lin)
    let ?hs = "concat (map (\<lambda>a. beforeAllHooks (blocks (dslState st) a)) lin)"
    obtain r st2 where rh: "runHooks ?hs BeforeAll (markedState lin st) = (r, st2)"
      by (cases "runHooks ?hs BeforeAll (markedState lin st)")
    have "\<not> list_ex isFail (map Mark lin)" by (simp add: list_ex_iff)
    then have m: "bailInv (markedState lin st)" "\<not> globalBail (markedState lin st)"
      using assms
      by (auto simp: bailInv_def markedState_def quietAfterFail_append quietAfterFail_no_fail)
    have p2: "bailInv st2"
      using runHooks_bailInv(1) [OF m(1), of BeforeAll ?hs] m(2) rh by simp
    show ?thesis
      unfolding beforeAllPhase_run [OF nr Some] rh
      using p2 hookFailure_bailInv [OF p2 assms(3)]
      by (simp split: option.splits sum.splits)
  qed
qed

lemma afterAllPhase_bailInv:
  assumes "bailInv st" and "opt_bail opts"
  shows "bailInv (snd (afterAllPhase fo opts sp b ok st))"
proof -
  let ?hs = "afterAllHooks (blocks (dslState st) b)"
  obtain r st1 where rh: "runHooks ?hs AfterAll st = (r, st1)"
    by (cases "runHooks ?hs AfterAll st")
  have p1: "bailInv st1"
    using runHooks_bailInv(1) [OF assms(1), of AfterAll ?hs] rh by simp
  show ?thesis
    using assms rh p1 hookFailure_bailInv [OF p1 assms(2)]
    by (simp add: afterAllPhase_def Let_def split: option.splits sum.splits)
qed


lemma invoke_bailInv:
  assumes "bailInv st" and "\<not> globalBail st"
  shows "bailInv (snd (invoke c f st)) \<and> \<not> globalBail (snd (invoke c f st))"
  using assms
  by (auto simp: invoke_def bailInv_def quietAfterFail_append split: prod.splits)

lemma runTestCase_bailInv:
  assumes inv: "bailInv st" and nb: "\<not> globalBail st" and bail: "opt_bail opts"
  shows "bailInv (snd (runTestCase fo opts sp tc st))"
proof -
  define st0 where "st0 = emit (EvStart sp (tc_name tc)) st"
  have i0: "bailInv st0" "\<not> globalBail st0"
    using extend_bailInv [OF inv nb, of "Event (EvStart sp (tc_name tc))"] nb
    by (simp_all add: st0_def emit_def)
  obtain r1 st1 where s1: "runTestStage fo tc st0 = (r1, st1)"
    by (cases "runTestStage fo tc st0")
  have i1: "bailInv st1 \<and> \<not> globalBail st1"
  proof (cases "collectHooks (dslState st0) (tc_describeBlock tc) BeforeEach")
    case None
    with s1 i0 show ?thesis by (simp add: runTestStage_def)
  next
    case (Some bes)
    obtain r st' where rh: "runHooks bes BeforeEach st0 = (r, st')"
      by (cases "runHooks bes BeforeEach st0")
    have a: "bailInv st'" "\<not> globalBail st'"
      using runHooks_bailInv(1) [OF i0(1), of BeforeEach bes] i0(2) rh
        runHooks_frame [of bes BeforeEach st0] by simp_all
    obtain r2 st2 where iv: "invoke (TestCall (fn_id (tc_fn tc))) (tc_fn tc) st' = (r2, st2)"
      by (cases "invoke (TestCall (fn_id (tc_fn tc))) (tc_fn tc) st'")
    have b: "bailInv st2" "\<not> globalBail st2"
      using invoke_bailInv [OF a, of "TestCall (fn_id (tc_fn tc))" "tc_fn tc"] iv by simp_all
    show ?thesis
      using s1 Some rh iv a b
      by (auto simp: runTestStage_def split: option.splits sum.splits)
  qed
  show ?thesis
  proof (cases r1)
    case (Ok outcome)
    obtain r2 st2 where s2: "runAfterEach fo tc outcome st1 = (r2, st2)"
      by (cases "runAfterEach fo tc outcome st1")
    have i2: "bailInv st2 \<and> \<not> globalBail st2"
    proof (cases "collectHooks (dslState st1) (tc_describeBlock tc) AfterEach")
      case None
      with s2 i1 show ?thesis by (simp add: runAfterEach_def)
    next
      case (Some aes)
      show ?thesis
        using runAfterEach_snd [OF Some, of fo outcome] s2 i1
          runHooks_bailInv(1) [of st1 AfterEach aes] runHooks_frame [of aes AfterEach st1]
        by simp
    qed
    have fin: "bailInv (if opt_bail opts then (emit ev (pushResult r st2))\<lparr> globalBail := True \<rparr>
                        else emit ev (pushResult r st2))" for ev r
      using i2 bail
      by (auto simp: bailInv_def emit_def pushResult_def quietAfterFail_append
          quietAfterFail_no_fail)
    have pass: "bailInv (emit (EvPass sp (tc_name tc)) (pushResult r st2))" for r
      using i2
      by (auto simp: emit_def pushResult_def bailInv_def quietAfterFail_append
          quietAfterFail_no_fail)
    show ?thesis
      using s1 Ok s2 i2 fin pass
      by (cases r2) (auto simp: runTestCase_def st0_def [symmetric] Let_def)
  next
    case (Threw x)
    with s1 i1 show ?thesis by (simp add: runTestCase_def st0_def [symmetric])
  next
    case Unfinished
    with s1 i1 show ?thesis by (simp add: runTestCase_def st0_def [symmetric])
  qed
qed

lemma runDescribeBlock_bailInv:
  assumes "opt_bail opts"
  shows "bailInv st \<Longrightarrow> bailInv (snd (runDescribeBlock fo opts n b st))"
proof (rule runner_invariant [where P = bailInv and Q = "\<lambda>_. True"])
  show "bailInv (snd (runTestLoop fo opts sp ts s))" if "bailInv s" for sp ts s
    using that
    by (rule runTestLoop_invariant [rotated]) (rule runTestCase_bailInv [OF _ _ assms])
next
  show "bailInv (s\<lparr> globalBail := True \<rparr>)" if "bailInv s" for s
    using that by (simp add: bailInv_def)
qed (simp_all add: markExecuted_bailInv beforeAllPhase_bailInv afterAllPhase_bailInv assms)

text \<open>
  In a run with \<open>bail: true\<close>, whatever its outcome: after the first fail event the trace
  holds only invocations of after-all hooks, further fail events and the complete event, so
  no block is entered and no test or before hook is begun once something has failed.
\<close>

lemma runTests_bailInv:
  assumes "opt_bail opts"
  shows "bailInv (snd (runTests fo opts d w))"
proof (cases "resetExecutionState (Suc (nextId d)) rootDescribeBlock (blocks d)")
  case None
  then show ?thesis by (simp add: runTests_def bailInv_def)
next
  case (Some bs)
  let ?st = "startRun (d\<lparr> blocks := bs \<rparr>) w"
  have "bailInv ?st" by (simp add: bailInv_def)
  then have "bailInv (snd (topLevelLoop fo opts (nextId d) (children (bs rootDescribeBlock)) ?st))"
    by (rule topLevelLoop_invariant [where Q = "\<lambda>_. True", rotated])
       (simp_all add: runDescribeBlock_bailInv [OF assms])
  then show ?thesis
    using Some
    by (auto simp: runTests_def bailInv_def emit_def quietAfterFail_append
        split: prod.splits res.splits)
qed


text \<open>
  C6. The claim is that in a run with \<open>bail: true\<close> the after-each chain of the failing test
  and the after-all hooks of every scope entered with a successful before-all still run. In
  suite A (before-all hook 1, after-all hook 2, after-each hook 3) the test t1 throws
  \<open>Object.create(null)\<close>: \<open>parseError\<close> raises on this value, the exception leaves
  \<open>runTests\<close>, and the only invocations of the run are the before-all hook and the body of
  t1, although A was entered and its before-all hook succeeded. When t1 throws an \<open>Error\<close>
  instead, the after-each hook and the after-all hook are invoked and t2 is not begun.
\<close>

theorem C6_bail_cleanup_skipped:
  "map fn_id (afterAllHooks (blocks (scenarioCleanup nullPrototypeObject) 1)) = [2]
   \<and> map fn_id (afterEachHooks (blocks (scenarioCleanup nullPrototypeObject) 1)) = [3]
   \<and> fst (runTests noFrames bailOptions (scenarioCleanup nullPrototypeObject) [])
       = Threw (ErrorObj ''TypeError'' ''Cannot convert object to primitive value'' StackMissing)
   \<and> calls (snd (runTests noFrames bailOptions (scenarioCleanup nullPrototypeObject) []))
       = [HookCall BeforeAll 1, TestCall 4]
   \<and> world (snd (runTests noFrames bailOptions (scenarioCleanup nullPrototypeObject) []))
       = [''bA'']
   \<and> executed (blocks (dslState (snd (runTests noFrames bailOptions
                                        (scenarioCleanup nullPrototypeObject) []))) 1)
   \<and> calls (snd (runTests noFrames bailOptions
                    (scenarioCleanup (ErrorObj ''Error'' ''boom'' StackMissing)) []))
       = [HookCall BeforeAll 1, TestCall 4, HookCall AfterEach 3, HookCall AfterAll 2]
   \<and> world (snd (runTests noFrames bailOptions
                    (scenarioCleanup (ErrorObj ''Error'' ''boom'' StackMissing)) []))
       = [''bA'', ''ae'', ''aA'']"
  by code_simp

subsection \<open>What a visit keeps\<close>

lemma runChildren_invariant:
  assumes rd: "\<And>b st. P st \<Longrightarrow> Q b \<Longrightarrow> P (snd (runDescribeBlock fo opts n b st))"
    and gb: "\<And>st. P st \<Longrightarrow> P (st\<lparr> globalBail := True \<rparr>)"
  shows "P st \<Longrightarrow> \<forall>c\<in>set cs. Q c \<Longrightarrow> P (snd (runChildren fo opts n cs st))"
proof (induction cs arbitrary: st)
  case Nil
  then show ?case by simp
next
  case (Cons c cs)
  obtain r s' where r: "runDescribeBlock fo opts n c st = (r, s')"
    by (cases "runDescribeBlock fo opts n c st")
  have p': "P s'" using rd [of st c] Cons.prems r by simp
  then have "P (snd (runChildren fo opts n cs s'))" using Cons by simp
  with Cons.prems r p' gb [OF p'] show ?case by (simp split: res.splits)
qed

lemma runTestCase_dsl:
  "dslState (snd (runTestCase fo opts sp tc st)) = dslState st"
proof -
  define st0 where "st0 = emit (EvStart sp (tc_name tc)) st"
  obtain r1 st1 where s1: "runTestStage fo tc st0 = (r1, st1)"
    by (cases "runTestStage fo tc st0")
  have d1: "dslState st1 = dslState st"
    using runTestStage_frame [of fo tc st0] s1 by (simp add: st0_def emit_def)
  show ?thesis
  proof (cases r1)
    case (Ok outcome)
    obtain r2 st2 where s2: "runAfterEach fo tc outcome st1 = (r2, st2)"
      by (cases "runAfterEach fo tc outcome st1")
    have d2: "dslState st2 = dslState st"
      using runAfterEach_frame [of fo tc outcome st1] s2 d1 by simp
    show ?thesis
      using s1 Ok s2 d2
      by (cases r2) (auto simp: runTestCase_def st0_def [symmetric] Let_def emit_simps pushResult_simps)
  next
    case (Threw x)
    with s1 d1 show ?thesis by (simp add: runTestCase_def st0_def [symmetric])
  next
    case Unfinished
    with s1 d1 show ?thesis by (simp add: runTestCase_def st0_def [symmetric])
  qed
qed

lemma runTestLoop_dsl:
  "dslState (snd (runTestLoop fo opts sp ts st)) = dslState st"
proof -
  have "(\<lambda>s. dslState s = dslState st) (snd (runTestLoop fo opts sp ts st))"
    by (rule runTestLoop_invariant) (simp_all add: runTestCase_dsl)
  then show ?thesis .
qed

lemma afterAllPhase_dsl:
  "dslState (snd (afterAllPhase fo opts sp b ok st)) = dslState st"
proof -
  let ?hs = "afterAllHooks (blocks (dslState st) b)"
  obtain r st1 where rh: "runHooks ?hs AfterAll st = (r, st1)"
    by (cases "runHooks ?hs AfterAll st")
  have "dslState st1 = dslState st" using runHooks_frame [of ?hs AfterAll st] rh by simp
  then show ?thesis
    using rh by (simp add: afterAllPhase_def Let_def hookFailure_simps split: option.splits sum.splits)
qed

text \<open>The before-all phase changes nothing of a block but its \<open>ranBeforeAll\<close> flag.\<close>

lemma beforeAllPhase_blocks:
  "\<exists>r. blocks (dslState (snd (beforeAllPhase fo opts sp b st))) c
        = (blocks (dslState st) c)\<lparr> ranBeforeAll := r \<rparr>"
proof (cases "ranBeforeAll (blocks (dslState st) b)")
  case True
  have "blocks (dslState st) c = (blocks (dslState st) c)\<lparr> ranBeforeAll := ranBeforeAll (blocks (dslState st) c) \<rparr>"
    by simp
  with True show ?thesis by (metis beforeAllPhase_skip snd_conv)
next
  case nr: False
  show ?thesis
  proof (cases "lineageLoop (nextId (dslState st)) (blocks (dslState st)) (Some b) []")
    case None
    have "blocks (dslState st) c = (blocks (dslState st) c)\<lparr> ranBeforeAll := ranBeforeAll (blocks (dslState st) c) \<rparr>"
      by simp
    with nr None show ?thesis by (metis beforeAllPhase_stall snd_conv)
  next
    case (Some lin)
    let ?hs = "concat (map (\<lambda>a. beforeAllHooks (blocks (dslState st) a)) lin)"
    obtain r st2 where rh: "runHooks ?hs BeforeAll (markedState lin st) = (r, st2)"
      by (cases "runHooks ?hs BeforeAll (markedState lin st)")
    have d2: "dslState st2 = dslState (markedState lin st)"
      using runHooks_frame [of ?hs BeforeAll "markedState lin st"] rh by simp
    have "dslState (snd (beforeAllPhase fo opts sp b st)) = dslState (markedState lin st)"
      unfolding beforeAllPhase_run [OF nr Some] rh using d2
      by (simp add: hookFailure_simps split: option.splits sum.splits)
    moreover have "blocks (dslState (markedState lin st)) c
        = (blocks (dslState st) c)\<lparr> ranBeforeAll := c \<in> set lin \<or> ranBeforeAll (blocks (dslState st) c) \<rparr>"
      by (simp add: markedState_simps)
    ultimately show ?thesis by metis
  qed
qed

lemma markExecuted_blocks:
  "blocks (dslState (markExecuted b st)) c
     = (blocks (dslState st) c)\<lparr> executed := c = b \<or> executed (blocks (dslState st) c) \<rparr>"
  by (simp add: markExecuted_def)

subsection \<open>Before-all hooks run at most once\<close>

lemma marksOf_append [simp]: "marksOf (xs @ ys) = marksOf xs @ marksOf ys"
  by (induction xs rule: marksOf.induct) simp_all

lemma beforeAllCallsOf_append [simp]:
  "beforeAllCallsOf (xs @ ys) = beforeAllCallsOf xs @ beforeAllCallsOf ys"
  by (induction xs rule: beforeAllCallsOf.induct) simp_all

lemma marksOf_Mark [simp]: "marksOf (map Mark bs) = bs"
  by (induction bs) simp_all

lemma beforeAllCallsOf_Mark [simp]: "beforeAllCallsOf (map Mark bs) = []"
  by (induction bs) simp_all

lemma marksOf_calls [simp]: "marksOf (map (\<lambda>h. Call (f h)) hs) = []"
  by (induction hs) simp_all

lemma beforeAllCallsOf_calls:
  "beforeAllCallsOf (map (\<lambda>h. Call (HookCall ty (fn_id h))) hs)
     = (if ty = BeforeAll then map fn_id hs else [])"
  by (induction hs) (cases ty; simp)+

lemma sameTree_refl: "sameTree d d"
proof -
  have "blocks d b = (blocks d b)\<lparr> ranBeforeAll := ranBeforeAll (blocks d b),
                                  executed := executed (blocks d b) \<rparr>" for b
    by simp
  then show ?thesis unfolding sameTree_def by blast
qed

lemma sameTree_fields:
  assumes "sameTree d d'"
  shows "parent (blocks d' b) = parent (blocks d b)"
    and "children (blocks d' b) = children (blocks d b)"
    and "beforeAllHooks (blocks d' b) = beforeAllHooks (blocks d b)"
    and "nextId d' = nextId d"
proof -
  from assms obtain r e where "blocks d' b = (blocks d b)\<lparr> ranBeforeAll := r, executed := e \<rparr>"
    unfolding sameTree_def by blast
  then show "parent (blocks d' b) = parent (blocks d b)"
    and "children (blocks d' b) = children (blocks d b)"
    and "beforeAllHooks (blocks d' b) = beforeAllHooks (blocks d b)"
    by simp_all
  show "nextId d' = nextId d" using assms by (simp add: sameTree_def)
qed

lemma sameTree_flags:
  assumes "sameTree d d'" and "nextId d'' = nextId d'"
    and "\<And>b. \<exists>r e. blocks d'' b = (blocks d' b)\<lparr> ranBeforeAll := r, executed := e \<rparr>"
  shows "sameTree d d''"
  unfolding sameTree_def
proof (intro conjI allI)
  show "nextId d'' = nextId d" using assms by (simp add: sameTree_def)
next
  fix b
  from assms(1) obtain r e where 1: "blocks d' b = (blocks d b)\<lparr> ranBeforeAll := r, executed := e \<rparr>"
    unfolding sameTree_def by blast
  from assms(3) obtain r' e' where "blocks d'' b = (blocks d' b)\<lparr> ranBeforeAll := r', executed := e' \<rparr>"
    by blast
  with 1 have "blocks d'' b = (blocks d b)\<lparr> ranBeforeAll := r', executed := e' \<rparr>" by simp
  then show "\<exists>r e. blocks d'' b = (blocks d b)\<lparr> ranBeforeAll := r, executed := e \<rparr>" by blast
qed

lemma wfDsl_block:
  assumes "wfDsl d" and "b < nextId d"
  shows "(case parent (blocks d b) of None \<Rightarrow> True | Some p \<Rightarrow> p < b)
       \<and> list_all (\<lambda>c. b < c \<and> c < nextId d) (children (blocks d b))"
proof -
  have mem: "b \<in> set [0..<nextId d]" using assms(2) by simp
  have "list_all (\<lambda>b. (case parent (blocks d b) of None \<Rightarrow> True | Some p \<Rightarrow> p < b)
                  \<and> list_all (\<lambda>c. b < c \<and> c < nextId d) (children (blocks d b)))
       [0..<nextId d]"
    using assms(1) unfolding wfDsl_def by (rule conjunct2)
  then have "\<forall>b\<in>set [0..<nextId d].
      (case parent (blocks d b) of None \<Rightarrow> True | Some p \<Rightarrow> p < b)
       \<and> list_all (\<lambda>c. b < c \<and> c < nextId d) (children (blocks d b))"
    unfolding list_all_iff [of _ "[0..<nextId d]"] .
  then show ?thesis using mem by (rule bspec)
qed

lemma wfDsl_parent:
  "wfDsl d \<Longrightarrow> b < nextId d \<Longrightarrow> parent (blocks d b) = Some p \<Longrightarrow> p < b"
  using wfDsl_block [of d b] by simp

lemma wfDsl_children:
  assumes "wfDsl d" and "b < nextId d" and "c \<in> set (children (blocks d b))"
  shows "c < nextId d" and "b < c"
proof -
  have "list_all (\<lambda>c. b < c \<and> c < nextId d) (children (blocks d b))"
    using wfDsl_block [OF assms(1,2)] by (rule conjunct2)
  then have "b < c \<and> c < nextId d"
    using assms(3) unfolding list_all_iff by (rule bspec)
  then show "c < nextId d" and "b < c" by simp_all
qed

text \<open>The lineage: above the block, unmarked, without repetition, the block itself first.\<close>

lemma lineageLoop_props:
  assumes "lineageLoop n bs cur acc = Some lin"
    and "\<And>c. cur = Some c \<Longrightarrow> c < N"
    and "\<And>b p. b < N \<Longrightarrow> parent (bs b) = Some p \<Longrightarrow> p < b"
  shows "\<exists>new. lin = new @ acc \<and> distinct new
           \<and> (\<forall>x\<in>set new. \<not> ranBeforeAll (bs x) \<and> x < N \<and> (\<forall>c. cur = Some c \<longrightarrow> x \<le> c))
           \<and> (\<forall>c. cur = Some c \<and> \<not> ranBeforeAll (bs c) \<longrightarrow> c \<in> set new)"
  using assms(1,2)
proof (induction n arbitrary: cur acc)
  case 0
  then show ?case by (cases cur) (auto split: if_splits)
next
  case (Suc m)
  show ?case
  proof (cases cur)
    case None
    with Suc.prems show ?thesis by simp
  next
    case (Some c)
    show ?thesis
    proof (cases "ranBeforeAll (bs c)")
      case True
      with Some Suc.prems show ?thesis by simp
    next
      case False
      have cN: "c < N" using Suc.prems(2) Some by simp
      have rec: "lineageLoop m bs (parent (bs c)) (c # acc) = Some lin"
        using Suc.prems(1) Some False by simp
      have pN: "\<And>p. parent (bs c) = Some p \<Longrightarrow> p < N"
        using assms(3) [OF cN] cN by fastforce
      from Suc.IH [OF rec pN] obtain new where
        n: "lin = new @ c # acc" "distinct new"
        "\<forall>x\<in>set new. \<not> ranBeforeAll (bs x) \<and> x < N \<and> (\<forall>p. parent (bs c) = Some p \<longrightarrow> x \<le> p)"
        by blast
      have below: "x < c" if "x \<in> set new" for x
      proof (cases "parent (bs c)")
        case None
        with rec have "lin = c # acc" by simp
        with n(1) that show ?thesis by (cases new) auto
      next
        case (Some p)
        then have "p < c" using assms(3) [OF cN] by simp
        moreover have "x \<le> p" using n(3) that Some by blast
        ultimately show ?thesis by simp
      qed
      have "lin = (new @ [c]) @ acc" using n(1) by simp
      moreover have "distinct (new @ [c])" using n(2) below by auto
      moreover have "\<forall>x\<in>set (new @ [c]). \<not> ranBeforeAll (bs x) \<and> x < N \<and> x \<le> c"
        using n(3) below False cN by (auto simp: less_imp_le)
      ultimately show ?thesis using Some False by (metis in_set_conv_decomp option.inject)
    qed
  qed
qed


lemma plainFrom_self: "plainFrom (trace st) st"
  by (simp add: plainFrom_def)

lemma plainFrom_step:
  "plainFrom tr st \<Longrightarrow> plainFrom (trace st) st' \<Longrightarrow> plainFrom tr st'"
  by (auto simp: plainFrom_def)

lemma runHooks_plain:
  "ty \<noteq> BeforeAll \<Longrightarrow> plainFrom (trace st) (snd (runHooks hs ty st))"
  using runHooks_trace [of hs ty st] by (auto simp: plainFrom_def beforeAllCallsOf_calls)

lemma invoke_plain: "plainFrom (trace st) (snd (invoke (TestCall i) f st))"
  by (simp add: plainFrom_def invoke_def split: prod.splits)

lemma hookFailure_plain: "plainFrom (trace st) (hookFailure sp l e opts st)"
  by (simp add: plainFrom_def hookFailure_def Let_def pushResult_def emit_def)

lemma runTestStage_plain: "plainFrom (trace st) (snd (runTestStage fo tc st))"
proof (cases "collectHooks (dslState st) (tc_describeBlock tc) BeforeEach")
  case None
  then show ?thesis by (simp add: runTestStage_def plainFrom_self)
next
  case (Some bes)
  obtain r st1 where rh: "runHooks bes BeforeEach st = (r, st1)"
    by (cases "runHooks bes BeforeEach st")
  obtain r2 st2 where iv: "invoke (TestCall (fn_id (tc_fn tc))) (tc_fn tc) st1 = (r2, st2)"
    by (cases "invoke (TestCall (fn_id (tc_fn tc))) (tc_fn tc) st1")
  have 1: "plainFrom (trace st) st1" using runHooks_plain [of BeforeEach st bes] rh by simp
  have "plainFrom (trace st1) st2"
    using invoke_plain [of st1 "fn_id (tc_fn tc)" "tc_fn tc"] iv by simp
  with 1 have 2: "plainFrom (trace st) st2" by (rule plainFrom_step)
  show ?thesis using Some rh iv 1 2
    by (simp add: runTestStage_def split: option.splits sum.splits)
qed

lemma runAfterEach_plain: "plainFrom (trace st) (snd (runAfterEach fo tc outcome st))"
proof (cases "collectHooks (dslState st) (tc_describeBlock tc) AfterEach")
  case None
  then show ?thesis by (simp add: runAfterEach_def plainFrom_self)
next
  case (Some aes)
  show ?thesis
    using runAfterEach_snd [OF Some, of fo outcome] runHooks_plain [of AfterEach st aes]
    by simp
qed

lemma runTestCase_plain: "plainFrom (trace st) (snd (runTestCase fo opts sp tc st))"
proof -
  define st0 where "st0 = emit (EvStart sp (tc_name tc)) st"
  have g0: "plainFrom (trace st) st0" by (simp add: st0_def emit_def plainFrom_def)
  obtain r1 st1 where s1: "runTestStage fo tc st0 = (r1, st1)"
    by (cases "runTestStage fo tc st0")
  have g1: "plainFrom (trace st) st1"
    using plainFrom_step [OF g0 runTestStage_plain [of st0 fo tc]] s1 by simp
  show ?thesis
  proof (cases r1)
    case (Ok outcome)
    obtain r2 st2 where s2: "runAfterEach fo tc outcome st1 = (r2, st2)"
      by (cases "runAfterEach fo tc outcome st1")
    have g2: "plainFrom (trace st) st2"
      using plainFrom_step [OF g1 runAfterEach_plain [of st1 fo tc outcome]] s2 by simp
    have g3: "plainFrom (trace st) (emit ev (pushResult r st2))"
      "plainFrom (trace st) ((emit ev (pushResult r st2))\<lparr> globalBail := True \<rparr>)" for ev r
      using g2 by (auto simp: plainFrom_def emit_def pushResult_def)
    show ?thesis
      using s1 Ok s2 g2 g3
      by (cases r2) (auto simp: runTestCase_def st0_def [symmetric] Let_def)
  next
    case (Threw x)
    with s1 g1 show ?thesis by (simp add: runTestCase_def st0_def [symmetric])
  next
    case Unfinished
    with s1 g1 show ?thesis by (simp add: runTestCase_def st0_def [symmetric])
  qed
qed

lemma afterAllPhase_plain: "plainFrom (trace st) (snd (afterAllPhase fo opts sp b ok st))"
proof -
  let ?hs = "afterAllHooks (blocks (dslState st) b)"
  obtain r st1 where rh: "runHooks ?hs AfterAll st = (r, st1)"
    by (cases "runHooks ?hs AfterAll st")
  have g1: "plainFrom (trace st) st1" using runHooks_plain [of AfterAll st ?hs] rh by simp
  have g2: "plainFrom (trace st) (hookFailure sp ''(afterAll hook)'' e opts st1)" for e
    by (rule plainFrom_step [OF g1 hookFailure_plain])
  show ?thesis
    using rh g1 g2
    by (simp add: afterAllPhase_def Let_def plainFrom_self split: option.splits sum.splits)
qed

lemma onceInv_plain:
  assumes "onceInv d st" and "plainFrom (trace st) st'" and "dslState st' = dslState st"
  shows "onceInv d st'"
  using assms by (auto simp: onceInv_def plainFrom_def scheduled_def)


lemma markedState_onceInv:
  assumes inv: "onceInv d st" and dl: "distinct lin"
    and un: "\<forall>x\<in>set lin. \<not> ranBeforeAll (blocks (dslState st) x)"
  shows "onceInv d (markedState lin st)"
  unfolding onceInv_def
proof (intro conjI)
  show "sameTree d (dslState (markedState lin st))"
  proof (rule sameTree_flags)
    show "sameTree d (dslState st)" using inv by (simp add: onceInv_def)
    show "nextId (dslState (markedState lin st)) = nextId (dslState st)"
      by (simp add: markedState_simps)
    show "\<exists>r e. blocks (dslState (markedState lin st)) b
            = (blocks (dslState st) b)\<lparr> ranBeforeAll := r, executed := e \<rparr>" for b
    proof (intro exI)
      show "blocks (dslState (markedState lin st)) b
          = (blocks (dslState st) b)\<lparr> ranBeforeAll := b \<in> set lin \<or> ranBeforeAll (blocks (dslState st) b),
                                       executed := executed (blocks (dslState st) b) \<rparr>"
        by (simp add: markedState_simps)
    qed
  qed
next
  have old: "\<forall>a\<in>set (marksOf (trace st)). ranBeforeAll (blocks (dslState st) a)"
    using inv by (simp add: onceInv_def list_all_iff)
  then have "set (marksOf (trace st)) \<inter> set lin = {}" using un by auto
  then show "distinct (marksOf (trace (markedState lin st)))"
    using inv dl by (simp add: onceInv_def markedState_def)
  show "list_all (\<lambda>a. ranBeforeAll (blocks (dslState (markedState lin st)) a))
          (marksOf (trace (markedState lin st)))"
    using old by (auto simp: markedState_def list_all_iff)
  have "subseq (beforeAllCallsOf (trace st)) (scheduled d (trace st))"
    using inv by (simp add: onceInv_def)
  then show "subseq (beforeAllCallsOf (trace (markedState lin st)))
               (scheduled d (trace (markedState lin st)))"
    by (simp add: markedState_def scheduled_def list_emb_prefix)
qed

lemma runBeforeAll_onceInv:
  assumes inv: "onceInv d st"
    and tr: "trace st = pre @ map Mark lin"
    and hs: "map fn_id hs = concat (map (\<lambda>a. map fn_id (beforeAllHooks (blocks d a))) lin)"
    and sub: "subseq (beforeAllCallsOf pre) (scheduled d pre)"
  shows "onceInv d (snd (runHooks hs BeforeAll st))"
proof -
  obtain k where t: "trace (snd (runHooks hs BeforeAll st))
      = trace st @ map (\<lambda>h. Call (HookCall BeforeAll (fn_id h))) (take k hs)"
    using runHooks_trace by blast
  have d: "dslState (snd (runHooks hs BeforeAll st)) = dslState st"
    using runHooks_frame by blast
  have "subseq (map fn_id (take k hs)) (map fn_id hs)"
    by (intro subseq_map prefix_imp_subseq take_is_prefix)
  then have "subseq (beforeAllCallsOf pre @ map fn_id (take k hs))
               (scheduled d pre @ map fn_id hs)"
    using sub by (rule list_emb_append_mono [rotated])
  then have "subseq (beforeAllCallsOf (trace (snd (runHooks hs BeforeAll st))))
               (scheduled d (trace (snd (runHooks hs BeforeAll st))))"
    by (simp add: t tr scheduled_def beforeAllCallsOf_calls hs)
  then show ?thesis
    using inv by (simp add: onceInv_def d t)
qed

lemma beforeAllPhase_onceInv:
  assumes inv: "onceInv d st" and wf: "wfDsl d" and bN: "b < nextId d"
  shows "onceInv d (snd (beforeAllPhase fo opts sp b st))"
proof (cases "ranBeforeAll (blocks (dslState st) b)")
  case True
  with inv show ?thesis by (simp add: beforeAllPhase_skip)
next
  case nr: False
  show ?thesis
  proof (cases "lineageLoop (nextId (dslState st)) (blocks (dslState st)) (Some b) []")
    case None
    with nr inv show ?thesis by (simp add: beforeAllPhase_stall)
  next
    case (Some lin)
    have same: "sameTree d (dslState st)" using inv by (simp add: onceInv_def)
    have par: "\<And>x p. x < nextId d \<Longrightarrow> parent (blocks (dslState st) x) = Some p \<Longrightarrow> p < x"
      using wfDsl_parent [OF wf] sameTree_fields(1) [OF same] by simp
    from lineageLoop_props [OF Some, of "nextId d"] bN par
    have dl: "distinct lin" and un: "\<forall>x\<in>set lin. \<not> ranBeforeAll (blocks (dslState st) x)"
      by auto
    let ?hs = "concat (map (\<lambda>a. beforeAllHooks (blocks (dslState st) a)) lin)"
    have m: "onceInv d (markedState lin st)"
      by (rule markedState_onceInv [OF inv dl un])
    have ids: "map fn_id ?hs = concat (map (\<lambda>a. map fn_id (beforeAllHooks (blocks d a))) lin)"
      using sameTree_fields(3) [OF same] by (simp add: map_concat comp_def)
    have sub: "subseq (beforeAllCallsOf (trace st)) (scheduled d (trace st))"
      using inv by (simp add: onceInv_def)
    have tr: "trace (markedState lin st) = trace st @ map Mark lin"
      by (simp add: markedState_def)
    obtain r st2 where rh: "runHooks ?hs BeforeAll (markedState lin st) = (r, st2)"
      by (cases "runHooks ?hs BeforeAll (markedState lin st)")
    have p2: "onceInv d st2"
      using runBeforeAll_onceInv [OF m tr ids sub] rh by simp
    have p3: "onceInv d (hookFailure sp ''(beforeAll hook)'' e opts st2)" for e
      by (rule onceInv_plain [OF p2 hookFailure_plain]) (simp add: hookFailure_simps)
    show ?thesis
      unfolding beforeAllPhase_run [OF nr Some] rh
      using p2 p3 by (simp split: option.splits sum.splits)
  qed
qed

lemma runDescribeBlock_onceInv:
  assumes wf: "wfDsl d"
  shows "onceInv d st \<Longrightarrow> b < nextId d \<Longrightarrow> onceInv d (snd (runDescribeBlock fo opts n b st))"
proof (rule runner_invariant [where P = "onceInv d" and Q = "\<lambda>b. b < nextId d"])
  show "onceInv d (markExecuted c s)" if "onceInv d s" for c s
    unfolding onceInv_def
  proof (intro conjI)
    show "sameTree d (dslState (markExecuted c s))"
    proof (rule sameTree_flags)
      show "sameTree d (dslState s)" using that by (simp add: onceInv_def)
      show "nextId (dslState (markExecuted c s)) = nextId (dslState s)"
        by (simp add: markExecuted_def)
      show "\<exists>r e. blocks (dslState (markExecuted c s)) b'
            = (blocks (dslState s) b')\<lparr> ranBeforeAll := r, executed := e \<rparr>" for b'
      proof (intro exI)
        show "blocks (dslState (markExecuted c s)) b'
            = (blocks (dslState s) b')\<lparr> ranBeforeAll := ranBeforeAll (blocks (dslState s) b'),
                                         executed := b' = c \<or> executed (blocks (dslState s) b') \<rparr>"
          by (simp add: markExecuted_def)
      qed
    qed
  qed (use that in \<open>auto simp: onceInv_def markExecuted_def scheduled_def list_all_iff\<close>)
next
  show "onceInv d (snd (runTestLoop fo opts sp ts s))" if "onceInv d s" for sp ts s
    using that
    by (rule runTestLoop_invariant [rotated])
       (auto intro: onceInv_plain runTestCase_plain simp: runTestCase_dsl)
next
  show "onceInv d (snd (afterAllPhase fo opts sp b' ok s))" if "onceInv d s" for sp b' ok s
    using that by (rule onceInv_plain) (simp_all add: afterAllPhase_plain afterAllPhase_dsl)
next
  show "onceInv d (s\<lparr> globalBail := True \<rparr>)" if "onceInv d s" for s
    using that by (simp add: onceInv_def)
next
  show "c < nextId d" if "onceInv d s" "b' < nextId d" "c \<in> set (children (blocks (dslState s) b'))"
    for b' c s
  proof -
    have "sameTree d (dslState s)" using that(1) by (simp add: onceInv_def)
    then have "children (blocks (dslState s) b') = children (blocks d b')"
      by (rule sameTree_fields(2))
    with that(2,3) wf show ?thesis by (auto intro: wfDsl_children(1))
  qed
qed (simp_all add: beforeAllPhase_onceInv wf)


lemma resetExecutionState_flags:
  fixes bs :: "bid \<Rightarrow> 'w DescribeBlock"
  shows "resetExecutionState n b bs = Some bs' \<Longrightarrow>
   \<exists>r e. bs' c = (bs c)\<lparr> ranBeforeAll := r, executed := e \<rparr>"
proof (induction n arbitrary: b bs bs')
  case 0
  then show ?case by simp
next
  case (Suc n)
  have kids: "resetChildren n cs bs1 = Some bs2 \<Longrightarrow>
      \<exists>r e. bs2 c = (bs1 c)\<lparr> ranBeforeAll := r, executed := e \<rparr>"
    for cs and bs1 bs2 :: "bid \<Rightarrow> 'w DescribeBlock"
  proof (induction cs arbitrary: bs1)
    case Nil
    then have "bs2 c = (bs1 c)\<lparr> ranBeforeAll := ranBeforeAll (bs1 c), executed := executed (bs1 c) \<rparr>"
      by simp
    then show ?case by blast
  next
    case (Cons x cs)
    then obtain bsm where 1: "resetExecutionState n x bs1 = Some bsm"
      and 2: "resetChildren n cs bsm = Some bs2"
      by (auto split: option.splits)
    from Suc.IH [OF 1] obtain r e where "bsm c = (bs1 c)\<lparr> ranBeforeAll := r, executed := e \<rparr>"
      by blast
    moreover from Cons.IH [OF 2] obtain r' e' where
      "bs2 c = (bsm c)\<lparr> ranBeforeAll := r', executed := e' \<rparr>"
      by blast
    ultimately have "bs2 c = (bs1 c)\<lparr> ranBeforeAll := r', executed := e' \<rparr>" by simp
    then show ?case by blast
  qed
  let ?bs1 = "bs(b := (bs b)\<lparr> ranBeforeAll := False, executed := False \<rparr>)"
  from Suc.prems have "resetChildren n (children (bs b)) ?bs1 = Some bs'" by simp
  from kids [OF this] obtain r e where "bs' c = (?bs1 c)\<lparr> ranBeforeAll := r, executed := e \<rparr>"
    by blast
  then have "bs' c = (bs c)\<lparr> ranBeforeAll := r, executed := e \<rparr>" by (cases "c = b") simp_all
  then show ?case by blast
qed

lemma runTests_onceInv:
  assumes wf: "wfDsl d"
  shows "onceInv d (snd (runTests fo opts d w))"
proof (cases "resetExecutionState (Suc (nextId d)) rootDescribeBlock (blocks d)")
  case None
  then show ?thesis by (simp add: runTests_def onceInv_def sameTree_refl scheduled_def)
next
  case (Some bs)
  let ?st = "startRun (d\<lparr> blocks := bs \<rparr>) w"
  have same: "sameTree d (d\<lparr> blocks := bs \<rparr>)"
    unfolding sameTree_def using resetExecutionState_flags [OF Some] by simp
  then have i0: "onceInv d ?st" by (simp add: onceInv_def scheduled_def)
  have "children (bs rootDescribeBlock) = children (blocks d rootDescribeBlock)"
    using sameTree_fields(2) [OF same, of rootDescribeBlock] by simp
  moreover have "rootDescribeBlock < nextId d" using wf by (simp add: wfDsl_def rootDescribeBlock_def)
  ultimately have kids: "\<forall>b\<in>set (children (bs rootDescribeBlock)). b < nextId d"
    using wfDsl_children(1) [OF wf] by auto
  have "onceInv d (snd (topLevelLoop fo opts (nextId d) (children (bs rootDescribeBlock)) ?st))"
    using i0 kids
    by (rule topLevelLoop_invariant [where P = "onceInv d" and Q = "\<lambda>b. b < nextId d", rotated])
       (rule runDescribeBlock_onceInv [OF wf])
  moreover have "onceInv d (emit ev s)" if "onceInv d s" for ev and s :: "'a run"
    using that by (rule onceInv_plain) (simp_all add: emit_def plainFrom_def)
  ultimately show ?thesis
    using Some by (auto simp: runTests_def split: prod.splits res.splits)
qed

lemma lineageLoop_suffix:
  "lineageLoop n bs cur acc = Some lin \<Longrightarrow> \<exists>new. lin = new @ acc"
proof (induction n arbitrary: cur acc)
  case 0
  then show ?case by (cases cur) (auto split: if_splits)
next
  case (Suc n)
  show ?case
  proof (cases cur)
    case None
    with Suc.prems show ?thesis by simp
  next
    case (Some c)
    show ?thesis
    proof (cases "ranBeforeAll (bs c)")
      case True
      with Some Suc.prems show ?thesis by simp
    next
      case False
      with Some Suc.prems have "lineageLoop n bs (parent (bs c)) (c # acc) = Some lin" by simp
      from Suc.IH [OF this] obtain new where "lin = new @ c # acc" by blast
      then have "lin = (new @ [c]) @ acc" by simp
      then show ?thesis by blast
    qed
  qed
qed

subsection \<open>Registration gives a well-formed registry\<close>

lemma wfDsl_same_shape:
  assumes wf: "wfDsl d" and n: "nextId d' = nextId d"
    and p: "\<And>b. parent (blocks d' b) = parent (blocks d b)"
    and c: "\<And>b. children (blocks d' b) = children (blocks d b)"
  shows "wfDsl d'"
proof -
  have "0 < nextId d'" using wf n by (simp add: wfDsl_def)
  moreover have "list_all (\<lambda>b. (case parent (blocks d' b) of None \<Rightarrow> True | Some p \<Rightarrow> p < b)
                  \<and> list_all (\<lambda>c. b < c \<and> c < nextId d') (children (blocks d' b)))
       [0..<nextId d']"
    using wf unfolding wfDsl_def n p c by (rule conjunct2)
  ultimately show ?thesis unfolding wfDsl_def by (rule conjI)
qed

lemma registered_update_block:
  assumes r: "registered d" and cur: "currentDescribeBlock d = Some c"
    and p: "parent blk = parent (blocks d c)" and ch: "children blk = children (blocks d c)"
  shows "registered (d\<lparr> blocks := (blocks d)(c := blk) \<rparr>)"
proof -
  have "wfDsl (d\<lparr> blocks := (blocks d)(c := blk) \<rparr>)"
    by (rule wfDsl_same_shape [of d]) (use r p ch in \<open>simp_all add: registered_def\<close>)
  then show ?thesis using r cur by (simp add: registered_def)
qed

lemma initialDsl_registered: "registered initialDsl"
  by (simp add: registered_def wfDsl_def initialDsl_def createDescribeBlock_def
      rootDescribeBlock_def)

lemma wfDsl_new_block:
  assumes wf: "wfDsl d" and par: "par < nextId d"
  shows "wfDsl (d\<lparr> blocks := ((blocks d)(nextId d := createDescribeBlock nm (Some par)))
                       (par := (blocks d par)\<lparr> children := children (blocks d par) @ [nextId d] \<rparr>),
                    nextId := Suc (nextId d) \<rparr>)"
    (is "wfDsl ?d'")
proof -
  let ?ok = "\<lambda>d b. (case parent (blocks d b) of None \<Rightarrow> True | Some p \<Rightarrow> p < b)
                  \<and> list_all (\<lambda>c. b < c \<and> c < nextId d) (children (blocks d b))"
  have old: "?ok d b" if "b < nextId d" for b
    using wfDsl_block [OF wf that] .
  have new: "?ok ?d' b" if b: "b < Suc (nextId d)" for b
  proof (cases "b = par")
    case True
    have "list_all (\<lambda>c. par < c \<and> c < nextId d) (children (blocks d par))"
      using old [OF par] by (rule conjunct2)
    then have "list_all (\<lambda>c. par < c \<and> c < Suc (nextId d)) (children (blocks d par))"
      unfolding list_all_iff by auto
    moreover have "case parent (blocks d par) of None \<Rightarrow> True | Some p \<Rightarrow> p < par"
      using old [OF par] by (rule conjunct1)
    ultimately show ?thesis unfolding True using par by simp
  next
    case False
    show ?thesis
    proof (cases "b = nextId d")
      case True
      then show ?thesis using par False by (simp add: createDescribeBlock_def)
    next
      case nb: False
      with b have lt: "b < nextId d" by simp
      have "list_all (\<lambda>c. b < c \<and> c < nextId d) (children (blocks d b))"
        using old [OF lt] by (rule conjunct2)
      then have "list_all (\<lambda>c. b < c \<and> c < Suc (nextId d)) (children (blocks d b))"
        unfolding list_all_iff by auto
      moreover have "case parent (blocks d b) of None \<Rightarrow> True | Some p \<Rightarrow> p < b"
        using old [OF lt] by (rule conjunct1)
      ultimately show ?thesis using False nb by simp
    qed
  qed
  have "\<forall>b\<in>set [0..<nextId ?d']. ?ok ?d' b"
  proof (intro ballI)
    fix b
    assume "b \<in> set [0..<nextId ?d']"
    then have "b < Suc (nextId d)" by auto
    then show "?ok ?d' b" by (rule new)
  qed
  then have "list_all (?ok ?d') [0..<nextId ?d']"
    unfolding list_all_iff [of _ "[0..<nextId ?d']"] .
  moreover have "0 < nextId ?d'" by simp
  ultimately show ?thesis unfolding wfDsl_def by (rule conjI [rotated])
qed

lemma script_registered:
  assumes "script f"
  shows "registered d \<Longrightarrow>
         registered (snd (f d)) \<and> currentDescribeBlock (snd (f d)) = currentDescribeBlock d
         \<and> nextId d \<le> nextId (snd (f d))"
  using assms
proof (induction arbitrary: d rule: script.induct)
  case (script_it nm fn)
  then obtain c where c: "currentDescribeBlock d = Some c"
    by (auto simp: registered_def split: option.splits)
  show ?case
    using registered_update_block [OF script_it c, of
        "(blocks d c)\<lparr> tests := tests (blocks d c) @ [t] \<rparr>" for t] c
    by (simp add: it_def split: prod.splits)
next
  case (script_beforeAll fn)
  then obtain c where c: "currentDescribeBlock d = Some c"
    by (auto simp: registered_def split: option.splits)
  show ?case
    using registered_update_block [OF script_beforeAll c, of
        "(blocks d c)\<lparr> beforeAllHooks := beforeAllHooks (blocks d c) @ [fn] \<rparr>"] c
    by (simp add: beforeAll_def)
next
  case (script_beforeEach fn)
  then obtain c where c: "currentDescribeBlock d = Some c"
    by (auto simp: registered_def split: option.splits)
  show ?case
    using registered_update_block [OF script_beforeEach c, of
        "(blocks d c)\<lparr> beforeEachHooks := beforeEachHooks (blocks d c) @ [fn] \<rparr>"] c
    by (simp add: beforeEach_def)
next
  case (script_afterEach fn)
  then obtain c where c: "currentDescribeBlock d = Some c"
    by (auto simp: registered_def split: option.splits)
  show ?case
    using registered_update_block [OF script_afterEach c, of
        "(blocks d c)\<lparr> afterEachHooks := afterEachHooks (blocks d c) @ [fn] \<rparr>"] c
    by (simp add: afterEach_def)
next
  case (script_afterAll fn)
  then obtain c where c: "currentDescribeBlock d = Some c"
    by (auto simp: registered_def split: option.splits)
  show ?case
    using registered_update_block [OF script_afterAll c, of
        "(blocks d c)\<lparr> afterAllHooks := afterAllHooks (blocks d c) @ [fn] \<rparr>"] c
    by (simp add: afterAll_def)
next
  case (script_describe body nm)
  from script_describe.prems obtain par where
    cur: "currentDescribeBlock d = Some par" and par: "par < nextId d" and wf: "wfDsl d"
    by (auto simp: registered_def split: option.splits)
  define d3 where "d3 = d\<lparr> nextId := Suc (nextId d),
                    blocks := ((blocks d)(nextId d :=
                                createDescribeBlock (fst (extractTags nm)) (Some par)))
                       (par := (blocks d par)\<lparr> children := children (blocks d par) @ [nextId d] \<rparr>),
                    currentDescribeBlock := Some (nextId d) \<rparr>"
  have wf3: "wfDsl d3"
    by (rule wfDsl_same_shape [OF wfDsl_new_block [OF wf par, of "fst (extractTags nm)"]])
       (simp_all add: d3_def)
  then have r3: "registered d3" by (simp add: registered_def d3_def)
  note ih = script_describe.IH [OF r3]
  have ne: "par \<noteq> nextId d" using par by simp
  have res: "snd (describe nm body d) = (snd (body d3))\<lparr> currentDescribeBlock := Some par \<rparr>"
    using cur ne by (simp add: describe_def Let_def d3_def split: prod.splits)
  have "wfDsl ((snd (body d3))\<lparr> currentDescribeBlock := Some par \<rparr>)"
    by (rule wfDsl_same_shape [of "snd (body d3)"]) (use ih in \<open>simp_all add: registered_def\<close>)
  moreover have "nextId d \<le> nextId (snd (body d3))" using ih by (simp add: d3_def)
  ultimately show ?case unfolding res using par cur by (simp add: registered_def)
next
  case (script_throw e)
  then show ?case by simp
next
  case script_done
  then show ?case by simp
next
  case (script_then c cs)
  obtain r d' where cd: "c d = (r, d')" by (cases "c d")
  from script_then.IH(1) [OF script_then.prems] cd
  have 1: "registered d'" "currentDescribeBlock d' = currentDescribeBlock d" "nextId d \<le> nextId d'"
    by simp_all
  show ?case
  proof (cases r)
    case None
    with cd script_then.IH(2) [OF 1(1)] 1 show ?thesis by simp
  next
    case (Some e)
    with cd 1 show ?thesis by simp
  qed
qed

text \<open>
  Whatever a test file registers, starting from the freshly loaded module, the registry is
  well formed and the pointer is back at the root block.
\<close>

lemma script_wfDsl:
  assumes "script f"
  shows "wfDsl (snd (f initialDsl))"
    and "currentDescribeBlock (snd (f initialDsl)) = Some rootDescribeBlock"
  using script_registered [OF assms initialDsl_registered]
  by (simp_all add: registered_def initialDsl_def)

text \<open>
  C3 (as amended). In a run on a well-formed registry, as registration produces it, and with
  hooks that act on the world outside the framework (they do not call \<open>runTests\<close>
  themselves): no block is marked twice, the before-all hooks invoked form a subsequence of
  the hook lists collected at the marks (so the hook list of a block is run at most once,
  however many of its descendants are visited), and every marked block has its flag set at
  the end. A block is marked together with the unmarked part of its lineage, and the hooks
  collected are run in the state in which all these flags are already set.
\<close>

theorem C3_before_all_at_most_once:
  assumes "wfDsl d"
  shows "distinct (marksOf (trace (snd (runTests fo opts d w))))
    \<and> subseq (beforeAllCallsOf (trace (snd (runTests fo opts d w))))
        (scheduled d (trace (snd (runTests fo opts d w))))
    \<and> list_all (\<lambda>a. ranBeforeAll (blocks (dslState (snd (runTests fo opts d w))) a))
        (marksOf (trace (snd (runTests fo opts d w))))
    \<and> (\<not> ranBeforeAll (blocks (dslState st) b)
         \<and> lineageLoop (nextId (dslState st)) (blocks (dslState st)) (Some b) [] = Some lin
       \<longrightarrow> b \<in> set lin
           \<and> trace (markedState lin st) = trace st @ map Mark lin
           \<and> list_all (\<lambda>a. ranBeforeAll (blocks (dslState (markedState lin st)) a)) lin
           \<and> beforeAllPhase fo opts sp b st
               = (case runHooks (concat (map (\<lambda>a. beforeAllHooks (blocks (dslState st) a)) lin))
                         BeforeAll (markedState lin st) of
                    (None, st2) \<Rightarrow> (Ok True, st2)
                  | (Some err, st2) \<Rightarrow>
                      (case parseError fo err of
                         Inl t \<Rightarrow> (Threw t, st2)
                       | Inr e \<Rightarrow> (Ok False, hookFailure sp ''(beforeAll hook)'' e opts st2))))"
proof (intro conjI impI)
  note inv = runTests_onceInv [OF assms, of fo opts w, unfolded onceInv_def]
  show "distinct (marksOf (trace (snd (runTests fo opts d w))))" using inv by simp
  show "subseq (beforeAllCallsOf (trace (snd (runTests fo opts d w))))
        (scheduled d (trace (snd (runTests fo opts d w))))" using inv by simp
  show "list_all (\<lambda>a. ranBeforeAll (blocks (dslState (snd (runTests fo opts d w))) a))
        (marksOf (trace (snd (runTests fo opts d w))))" using inv by simp
next
  assume a: "\<not> ranBeforeAll (blocks (dslState st) b)
         \<and> lineageLoop (nextId (dslState st)) (blocks (dslState st)) (Some b) [] = Some lin"
  from a have nr: "\<not> ranBeforeAll (blocks (dslState st) b)"
    by (rule conjunct1)
  from a have lin:
    "lineageLoop (nextId (dslState st)) (blocks (dslState st)) (Some b) [] = Some lin"
    by (rule conjunct2)
  show "b \<in> set lin"
  proof (cases "nextId (dslState st)")
    case 0
    with nr lin show ?thesis by simp
  next
    case (Suc m)
    with nr lin have "lineageLoop m (blocks (dslState st)) (parent (blocks (dslState st) b)) [b]
        = Some lin" by simp
    from lineageLoop_suffix [OF this] show ?thesis by auto
  qed
  show "trace (markedState lin st) = trace st @ map Mark lin"
    by (simp add: markedState_def)
  show "list_all (\<lambda>a. ranBeforeAll (blocks (dslState (markedState lin st)) a)) lin"
    by (simp add: markedState_simps list_all_iff)
  show "beforeAllPhase fo opts sp b st
               = (case runHooks (concat (map (\<lambda>a. beforeAllHooks (blocks (dslState st) a)) lin))
                         BeforeAll (markedState lin st) of
                    (None, st2) \<Rightarrow> (Ok True, st2)
                  | (Some err, st2) \<Rightarrow>
                      (case parseError fo err of
                         Inl t \<Rightarrow> (Threw t, st2)
                       | Inr e \<Rightarrow> (Ok False, hookFailure sp ''(beforeAll hook)'' e opts st2)))"
    by (rule beforeAllPhase_run [OF nr lin])
qed

theorem C3_before_all_at_most_once_witness:
  "wfDsl scenarioAB
   \<and> distinct (marksOf (trace (snd (runTests noFrames defaultOptions scenarioAB []))))
   \<and> marksOf (trace (snd (runTests noFrames defaultOptions scenarioAB []))) = [0, 1, 2]
   \<and> beforeAllCallsOf (trace (snd (runTests noFrames defaultOptions scenarioAB []))) = [1, 3]
   \<and> 2 \<in> set (the (lineageLoop (nextId scenarioAB)
                     (blocks (dslState (markedState [0, 1] (startRun scenarioAB []))))
                     (Some 2) []))"
proof -
  let ?S = "markedState [0, 1] (startRun scenarioAB [])"
  let ?lin = "the (lineageLoop (nextId (dslState ?S)) (blocks (dslState ?S)) (Some 2) [])"
  have h: "wfDsl scenarioAB" by code_simp
  have m: "marksOf (trace (snd (runTests noFrames defaultOptions scenarioAB []))) = [0, 1, 2]"
    by code_simp
  have c: "beforeAllCallsOf (trace (snd (runTests noFrames defaultOptions scenarioAB []))) = [1, 3]"
    by code_simp
  have n: "nextId (dslState ?S) = nextId scenarioAB" by (simp add: markedState_simps)
  have v1: "\<not> ranBeforeAll (blocks (dslState ?S) 2)" by code_simp
  have "lineageLoop (nextId (dslState ?S)) (blocks (dslState ?S)) (Some 2) [] \<noteq> None"
    by code_simp
  then have v2: "lineageLoop (nextId (dslState ?S)) (blocks (dslState ?S)) (Some 2) [] = Some ?lin"
    by simp
  note inst = C3_before_all_at_most_once [OF h, of noFrames defaultOptions "[]" ?S 2 ?lin "''A > B''"]
  from inst [THEN conjunct2, THEN conjunct2, THEN conjunct2, rule_format, OF conjI [OF v1 v2]]
  have "2 \<in> set ?lin" by simp
  with inst [THEN conjunct1] h m c n show ?thesis by simp
qed

text \<open>
  C3 as stated fails in two places. Where it says that every flag is set exactly once: in
  the run of the suite A whose before-all hook fails, the child suite B is never reached,
  so it is never marked and its flag stays false. Where it says that setting the flag
  before the hooks execute keeps a hook that triggers a traversal from running again: the
  only traversal a hook can trigger is \<open>runTests\<close>, which resets every flag first. In the
  run of the scenario of C5 the before-all hook of A (function 1) is invoked in the state
  in which the root and A are marked; \<open>runTests\<close> called in that state invokes function 1
  again.
\<close>

theorem C3_exactly_once_and_reentry_counterexample:
  "name (blocks scenarioBeforeAllFails 2) = ''B''
   \<and> parent (blocks scenarioBeforeAllFails 2) = Some 1
   \<and> 2 \<notin> set (marksOf (trace (snd (runTests noFrames defaultOptions scenarioBeforeAllFails []))))
   \<and> \<not> ranBeforeAll (blocks (dslState (snd (runTests noFrames defaultOptions
                                               scenarioBeforeAllFails []))) 2)
   \<and> map fn_id (beforeAllHooks (blocks scenarioAB 1)) = [1]
   \<and> lineageLoop (nextId scenarioAB)
         (blocks (dslState (markExecuted 1 (startRun scenarioAB [])))) (Some 1) [] = Some [0, 1]
   \<and> ranBeforeAll (blocks (dslState (markedState [0, 1] (markExecuted 1 (startRun scenarioAB [])))) 1)
   \<and> HookCall BeforeAll 1
        \<in> set (calls (snd (runTests noFrames defaultOptions
                  (dslState (markedState [0, 1] (markExecuted 1 (startRun scenarioAB []))))
                  (world (markedState [0, 1] (markExecuted 1 (startRun scenarioAB [])))))))"
  by code_simp

subsection \<open>Tests on the root block are invisible\<close>

lemma it_at_root:
  assumes "currentDescribeBlock d = Some rootDescribeBlock"
  shows "it nm fn d
     = (None, withRootTests (tests (blocks d rootDescribeBlock)
                 @ [\<lparr> tc_name = fst (extractTags nm), tc_fn = fn, tc_tags = snd (extractTags nm),
                      tc_describeBlock = rootDescribeBlock \<rparr>]) d)"
  using assms by (simp add: it_def withRootTests_def split: prod.split)

lemma withRootTests_simps:
  "nextId (withRootTests ts d) = nextId d"
  "name (blocks (withRootTests ts d) b) = name (blocks d b)"
  "parent (blocks (withRootTests ts d) b) = parent (blocks d b)"
  "children (blocks (withRootTests ts d) b) = children (blocks d b)"
  "b \<noteq> rootDescribeBlock \<Longrightarrow> tests (blocks (withRootTests ts d) b) = tests (blocks d b)"
  by (simp_all add: withRootTests_def)

lemma suitePathLoop_withRootTests:
  "suitePathLoop n (blocks (withRootTests ts d)) b acc = suitePathLoop n (blocks d) b acc"
  by (induction n arbitrary: b acc) (simp_all add: withRootTests_simps split: option.splits)

lemma getSuitePath_withRootTests:
  "getSuitePath (withRootTests ts d) b = getSuitePath d b"
  by (simp add: getSuitePath_def suitePathLoop_withRootTests withRootTests_simps)

lemma traverse_withRootTests:
  assumes wf: "wfDsl d"
  shows "rootDescribeBlock < b \<Longrightarrow> b < nextId d \<Longrightarrow>
         traverse n (withRootTests ts d) b list = traverse n d b list"
proof (induction n arbitrary: b list)
  case 0
  then show ?case by simp
next
  case (Suc n)
  have kids: "\<forall>c\<in>set cs. rootDescribeBlock < c \<and> c < nextId d \<Longrightarrow>
      traverseChildren n (withRootTests ts d) cs l = traverseChildren n d cs l" for cs l
  proof (induction cs arbitrary: l)
    case Nil
    then show ?case by simp
  next
    case (Cons c cs)
    then have "traverse n (withRootTests ts d) c l = traverse n d c l"
      using Suc.IH [of c l] by simp
    with Cons show ?case by (simp split: option.splits)
  qed
  have "\<forall>c\<in>set (children (blocks d b)). rootDescribeBlock < c \<and> c < nextId d"
    using wfDsl_children [OF wf Suc.prems(2)] Suc.prems(1) by (auto intro: less_trans)
  then have k: "traverseChildren n (withRootTests ts d) (children (blocks d b)) l
      = traverseChildren n d (children (blocks d b)) l" for l
    by (rule kids)
  have nr: "b \<noteq> rootDescribeBlock" using Suc.prems(1) by simp
  show ?case
    by (simp add: getSuitePath_withRootTests withRootTests_simps(4)
        withRootTests_simps(5) [OF nr] k split: option.splits)
qed

lemma getTestList_withRootTests:
  assumes wf: "wfDsl d"
  shows "getTestList (withRootTests ts d) = getTestList d"
proof -
  have r: "rootDescribeBlock < nextId d" using wf by (simp add: wfDsl_def rootDescribeBlock_def)
  have "parent (blocks d rootDescribeBlock) = None"
  proof (cases "parent (blocks d rootDescribeBlock)")
    case (Some p)
    from wfDsl_parent [OF wf r Some] show ?thesis by (simp add: rootDescribeBlock_def)
  qed simp
  then have sp: "getSuitePath d rootDescribeBlock = Some []"
    by (simp add: getSuitePath_def)
  have kidsR: "\<forall>c\<in>set (children (blocks d rootDescribeBlock)). rootDescribeBlock < c \<and> c < nextId d"
    using wfDsl_children [OF wf r] by auto
  have "traverseChildren n (withRootTests ts d) cs l = traverseChildren n d cs l"
    if "\<forall>c\<in>set cs. rootDescribeBlock < c \<and> c < nextId d" for n cs l
    using that
  proof (induction cs arbitrary: l)
    case Nil
    then show ?case by simp
  next
    case (Cons c cs)
    then have "traverse n (withRootTests ts d) c l = traverse n d c l"
      using traverse_withRootTests [OF wf, of c n ts l] by simp
    with Cons show ?case by (simp split: option.splits)
  qed
  from this [OF kidsR] show ?thesis
    by (simp add: getTestList_def getSuitePath_withRootTests sp withRootTests_simps)
qed


lemma testCallsOf_append [simp]: "testCallsOf (xs @ ys) = testCallsOf xs @ testCallsOf ys"
  by (induction xs rule: testCallsOf.induct) simp_all

lemma testCallsOf_hooks [simp]:
  "testCallsOf (map (\<lambda>h. Call (HookCall ty (f h))) hs) = []"
  by (induction hs) simp_all

lemma testCallsOf_Mark [simp]: "testCallsOf (map Mark bs) = []"
  by (induction bs) simp_all

lemma testCallsOf_calls: "(TestCall i \<in> set (callsOf tr)) = (i \<in> set (testCallsOf tr))"
  by (induction tr rule: testCallsOf.induct) auto

lemma runHooks_testCalls:
  "testCallsOf (trace (snd (runHooks hs ty st))) = testCallsOf (trace st)"
  using runHooks_trace [of hs ty st] by auto

lemma hookFailure_testCalls:
  "testCallsOf (trace (hookFailure sp l e opts st)) = testCallsOf (trace st)"
  by (simp add: hookFailure_def Let_def pushResult_def emit_def)

lemma runTestStage_testCalls:
  "set (testCallsOf (trace (snd (runTestStage fo tc st))))
     \<subseteq> insert (fn_id (tc_fn tc)) (set (testCallsOf (trace st)))"
proof (cases "collectHooks (dslState st) (tc_describeBlock tc) BeforeEach")
  case None
  then show ?thesis by (auto simp: runTestStage_def)
next
  case (Some bes)
  obtain r st1 where rh: "runHooks bes BeforeEach st = (r, st1)"
    by (cases "runHooks bes BeforeEach st")
  obtain r2 st2 where iv: "invoke (TestCall (fn_id (tc_fn tc))) (tc_fn tc) st1 = (r2, st2)"
    by (cases "invoke (TestCall (fn_id (tc_fn tc))) (tc_fn tc) st1")
  have 1: "testCallsOf (trace st1) = testCallsOf (trace st)"
    using runHooks_testCalls [of bes BeforeEach st] rh by simp
  have 2: "testCallsOf (trace st2) = testCallsOf (trace st) @ [fn_id (tc_fn tc)]"
    using iv 1 by (auto simp: invoke_def split: prod.splits)
  show ?thesis using Some rh iv 1 2
    by (auto simp: runTestStage_def split: option.splits sum.splits)
qed

lemma runAfterEach_testCalls:
  "testCallsOf (trace (snd (runAfterEach fo tc outcome st))) = testCallsOf (trace st)"
proof (cases "collectHooks (dslState st) (tc_describeBlock tc) AfterEach")
  case None
  then show ?thesis by (simp add: runAfterEach_def)
next
  case (Some aes)
  show ?thesis
    using runAfterEach_snd [OF Some, of fo outcome] runHooks_testCalls [of aes AfterEach st]
    by simp
qed

lemma runTestCase_testCalls:
  "set (testCallsOf (trace (snd (runTestCase fo opts sp tc st))))
     \<subseteq> insert (fn_id (tc_fn tc)) (set (testCallsOf (trace st)))"
proof -
  define st0 where "st0 = emit (EvStart sp (tc_name tc)) st"
  have t0: "testCallsOf (trace st0) = testCallsOf (trace st)" by (simp add: st0_def emit_def)
  obtain r1 st1 where s1: "runTestStage fo tc st0 = (r1, st1)"
    by (cases "runTestStage fo tc st0")
  have t1: "set (testCallsOf (trace st1)) \<subseteq> insert (fn_id (tc_fn tc)) (set (testCallsOf (trace st)))"
    using runTestStage_testCalls [of fo tc st0] s1 t0 by simp
  show ?thesis
  proof (cases r1)
    case (Ok outcome)
    obtain r2 st2 where s2: "runAfterEach fo tc outcome st1 = (r2, st2)"
      by (cases "runAfterEach fo tc outcome st1")
    have t2: "set (testCallsOf (trace st2)) \<subseteq> insert (fn_id (tc_fn tc)) (set (testCallsOf (trace st)))"
      using runAfterEach_testCalls [of fo tc outcome st1] s2 t1 by simp
    have t3: "set (testCallsOf (trace (emit ev (pushResult r st2))))
          \<subseteq> insert (fn_id (tc_fn tc)) (set (testCallsOf (trace st)))"
      "set (testCallsOf (trace ((emit ev (pushResult r st2))\<lparr> globalBail := True \<rparr>)))
          \<subseteq> insert (fn_id (tc_fn tc)) (set (testCallsOf (trace st)))" for ev r
      using t2 by (simp_all add: emit_def pushResult_def)
    show ?thesis
    proof (cases r2)
      case (Ok res)
      obtain ok err where res: "res = (ok, err)" by (cases res)
      show ?thesis
        using s1 \<open>r1 = Ok outcome\<close> s2 Ok res t3
        by (cases ok; cases "opt_bail opts")
           (simp_all add: runTestCase_def st0_def [symmetric] Let_def)
    next
      case (Threw x)
      with s1 \<open>r1 = Ok outcome\<close> s2 t2 show ?thesis
        by (simp add: runTestCase_def st0_def [symmetric])
    next
      case Unfinished
      with s1 \<open>r1 = Ok outcome\<close> s2 t2 show ?thesis
        by (simp add: runTestCase_def st0_def [symmetric])
    qed
  next
    case (Threw x)
    with s1 t1 show ?thesis by (simp add: runTestCase_def st0_def [symmetric])
  next
    case Unfinished
    with s1 t1 show ?thesis by (simp add: runTestCase_def st0_def [symmetric])
  qed
qed

lemma runTestLoop_testCalls:
  "set (testCallsOf (trace (snd (runTestLoop fo opts sp ts st))))
     \<subseteq> set (testCallsOf (trace st)) \<union> (\<lambda>tc. fn_id (tc_fn tc)) ` set ts"
proof (induction ts arbitrary: st)
  case Nil
  then show ?case by simp
next
  case (Cons t ts)
  obtain r st' where r: "runTestCase fo opts sp t st = (r, st')"
    by (cases "runTestCase fo opts sp t st")
  have 1: "set (testCallsOf (trace st')) \<subseteq> insert (fn_id (tc_fn t)) (set (testCallsOf (trace st)))"
    using runTestCase_testCalls [of fo opts sp t st] r by simp
  have 2: "set (testCallsOf (trace (snd (runTestLoop fo opts sp ts st'))))
     \<subseteq> set (testCallsOf (trace st')) \<union> (\<lambda>tc. fn_id (tc_fn tc)) ` set ts"
    by (rule Cons.IH)
  have 3: "set (testCallsOf (trace (snd (runTestLoop fo opts sp ts st))))
     \<subseteq> set (testCallsOf (trace st)) \<union> (\<lambda>tc. fn_id (tc_fn tc)) ` set ts"
    by (rule Cons.IH)
  show ?case
  proof (cases "globalBail st")
    case True
    then show ?thesis by auto
  next
    case nb: False
    show ?thesis
    proof (cases "shouldRun opts sp (tc_name t)")
      case False
      with nb 3 show ?thesis by auto
    next
      case True
      show ?thesis
      proof (cases r)
        case (Ok status)
        with nb True r 1 2 show ?thesis by (auto split: if_splits)
      next
        case (Threw x)
        with nb True r 1 show ?thesis by auto
      next
        case Unfinished
        with nb True r 1 show ?thesis by auto
      qed
    qed
  qed
qed

lemma beforeAllPhase_testCalls:
  "testCallsOf (trace (snd (beforeAllPhase fo opts sp b st))) = testCallsOf (trace st)"
proof (cases "ranBeforeAll (blocks (dslState st) b)")
  case True
  then show ?thesis by (simp add: beforeAllPhase_skip)
next
  case nr: False
  show ?thesis
  proof (cases "lineageLoop (nextId (dslState st)) (blocks (dslState st)) (Some b) []")
    case None
    with nr show ?thesis by (simp add: beforeAllPhase_stall)
  next
    case (Some lin)
    let ?hs = "concat (map (\<lambda>a. beforeAllHooks (blocks (dslState st) a)) lin)"
    obtain r st2 where rh: "runHooks ?hs BeforeAll (markedState lin st) = (r, st2)"
      by (cases "runHooks ?hs BeforeAll (markedState lin st)")
    have t2: "testCallsOf (trace st2) = testCallsOf (trace st)"
      using runHooks_testCalls [of ?hs BeforeAll "markedState lin st"] rh
      by (simp add: markedState_def)
    show ?thesis
      unfolding beforeAllPhase_run [OF nr Some] rh
      using t2 by (simp add: hookFailure_testCalls split: option.splits sum.splits)
  qed
qed

lemma afterAllPhase_testCalls:
  "testCallsOf (trace (snd (afterAllPhase fo opts sp b ok st))) = testCallsOf (trace st)"
proof -
  let ?hs = "afterAllHooks (blocks (dslState st) b)"
  obtain r st1 where rh: "runHooks ?hs AfterAll st = (r, st1)"
    by (cases "runHooks ?hs AfterAll st")
  have "testCallsOf (trace st1) = testCallsOf (trace st)"
    using runHooks_testCalls [of ?hs AfterAll st] rh by simp
  then show ?thesis
    using rh
    by (simp add: afterAllPhase_def Let_def hookFailure_testCalls split: option.splits sum.splits)
qed

lemma sameTree_tests:
  assumes "sameTree d d'"
  shows "tests (blocks d' b) = tests (blocks d b)"
proof -
  from assms obtain r e where "blocks d' b = (blocks d b)\<lparr> ranBeforeAll := r, executed := e \<rparr>"
    unfolding sameTree_def by blast
  then show ?thesis by simp
qed

lemma beforeAllPhase_nextId:
  "nextId (dslState (snd (beforeAllPhase fo opts sp b st))) = nextId (dslState st)"
proof (cases "ranBeforeAll (blocks (dslState st) b)")
  case True
  then show ?thesis by (simp add: beforeAllPhase_skip)
next
  case nr: False
  show ?thesis
  proof (cases "lineageLoop (nextId (dslState st)) (blocks (dslState st)) (Some b) []")
    case None
    with nr show ?thesis by (simp add: beforeAllPhase_stall)
  next
    case (Some lin)
    let ?hs = "concat (map (\<lambda>a. beforeAllHooks (blocks (dslState st) a)) lin)"
    obtain r st2 where rh: "runHooks ?hs BeforeAll (markedState lin st) = (r, st2)"
      by (cases "runHooks ?hs BeforeAll (markedState lin st)")
    have d2: "dslState st2 = dslState (markedState lin st)"
      using runHooks_frame [of ?hs BeforeAll "markedState lin st"] rh by simp
    show ?thesis
      unfolding beforeAllPhase_run [OF nr Some] rh using d2
      by (simp add: hookFailure_simps markedState_simps split: option.splits sum.splits)
  qed
qed

lemma beforeAllPhase_sameTree:
  assumes "sameTree d (dslState st)"
  shows "sameTree d (dslState (snd (beforeAllPhase fo opts sp b st)))"
proof (rule sameTree_flags [OF assms beforeAllPhase_nextId])
  fix c
  from beforeAllPhase_blocks [of fo opts sp b st c] obtain r where
    "blocks (dslState (snd (beforeAllPhase fo opts sp b st))) c
       = (blocks (dslState st) c)\<lparr> ranBeforeAll := r \<rparr>"
    by blast
  then have "blocks (dslState (snd (beforeAllPhase fo opts sp b st))) c
       = (blocks (dslState st) c)\<lparr> ranBeforeAll := r, executed := executed (blocks (dslState st) c) \<rparr>"
    by simp
  then show "\<exists>r e. blocks (dslState (snd (beforeAllPhase fo opts sp b st))) c
       = (blocks (dslState st) c)\<lparr> ranBeforeAll := r, executed := e \<rparr>"
    by blast
qed

lemma markExecuted_sameTree:
  assumes "sameTree d (dslState st)"
  shows "sameTree d (dslState (markExecuted b st))"
proof (rule sameTree_flags [OF assms])
  show "nextId (dslState (markExecuted b st)) = nextId (dslState st)"
    by (simp add: markExecuted_def)
  show "\<exists>r e. blocks (dslState (markExecuted b st)) c
            = (blocks (dslState st) c)\<lparr> ranBeforeAll := r, executed := e \<rparr>" for c
  proof (intro exI)
    show "blocks (dslState (markExecuted b st)) c
        = (blocks (dslState st) c)\<lparr> ranBeforeAll := ranBeforeAll (blocks (dslState st) c),
                                      executed := c = b \<or> executed (blocks (dslState st) c) \<rparr>"
      by (simp add: markExecuted_def)
  qed
qed


text \<open>Every test body that a visit invokes belongs to a test of a block other than the root.\<close>

lemma runDescribeBlock_testCalls:
  fixes st :: "'w run"
  assumes wf: "wfDsl d"
  shows "sameTree d (dslState st) \<and> set (testCallsOf (trace st)) \<subseteq> set (nonRootTestIds d) \<Longrightarrow>
         rootDescribeBlock < b \<and> b < nextId d \<Longrightarrow>
         sameTree d (dslState (snd (runDescribeBlock fo opts n b st)))
         \<and> set (testCallsOf (trace (snd (runDescribeBlock fo opts n b st))))
             \<subseteq> set (nonRootTestIds d)"
proof (rule runner_invariant
    [where Q = "\<lambda>b. rootDescribeBlock < b \<and> b < nextId d"
       and P = "\<lambda>s. sameTree d (dslState s)
                   \<and> set (testCallsOf (trace s)) \<subseteq> set (nonRootTestIds d)"])
  fix c and s :: "'w run"
  assume "sameTree d (dslState s) \<and> set (testCallsOf (trace s)) \<subseteq> set (nonRootTestIds d)"
  then show "sameTree d (dslState (markExecuted c s))
      \<and> set (testCallsOf (trace (markExecuted c s))) \<subseteq> set (nonRootTestIds d)"
    using markExecuted_sameTree [of d s c] by (simp add: markExecuted_def)
next
  fix sp c and s :: "'w run"
  assume "sameTree d (dslState s) \<and> set (testCallsOf (trace s)) \<subseteq> set (nonRootTestIds d)"
  then show "sameTree d (dslState (snd (beforeAllPhase fo opts sp c s)))
      \<and> set (testCallsOf (trace (snd (beforeAllPhase fo opts sp c s)))) \<subseteq> set (nonRootTestIds d)"
    by (simp add: beforeAllPhase_sameTree beforeAllPhase_testCalls)
next
  fix sp c and s :: "'w run"
  assume p: "sameTree d (dslState s) \<and> set (testCallsOf (trace s)) \<subseteq> set (nonRootTestIds d)"
    and q: "rootDescribeBlock < c \<and> c < nextId d"
  have ts: "tests (blocks (dslState s) c) = tests (blocks d c)"
    using p by (simp add: sameTree_tests)
  have "c \<in> set [1..<nextId d]" using q by (simp add: rootDescribeBlock_def)
  then have "(\<lambda>tc. fn_id (tc_fn tc)) ` set (tests (blocks d c)) \<subseteq> set (nonRootTestIds d)"
    unfolding nonRootTestIds_def by (auto simp del: upt_Suc set_upt)
  then have "set (testCallsOf (trace (snd (runTestLoop fo opts sp (tests (blocks d c)) s))))
          \<subseteq> set (nonRootTestIds d)"
    using p runTestLoop_testCalls [of fo opts sp "tests (blocks d c)" s] by blast
  then show "sameTree d (dslState (snd (runTestLoop fo opts sp (tests (blocks (dslState s) c)) s)))
      \<and> set (testCallsOf (trace (snd (runTestLoop fo opts sp (tests (blocks (dslState s) c)) s))))
          \<subseteq> set (nonRootTestIds d)"
    using p by (simp add: runTestLoop_dsl ts)
next
  fix sp c ok and s :: "'w run"
  assume "sameTree d (dslState s) \<and> set (testCallsOf (trace s)) \<subseteq> set (nonRootTestIds d)"
  then show "sameTree d (dslState (snd (afterAllPhase fo opts sp c ok s)))
      \<and> set (testCallsOf (trace (snd (afterAllPhase fo opts sp c ok s)))) \<subseteq> set (nonRootTestIds d)"
    by (simp add: afterAllPhase_dsl afterAllPhase_testCalls)
next
  fix s :: "'w run"
  assume "sameTree d (dslState s) \<and> set (testCallsOf (trace s)) \<subseteq> set (nonRootTestIds d)"
  then show "sameTree d (dslState (s\<lparr> globalBail := True \<rparr>))
      \<and> set (testCallsOf (trace (s\<lparr> globalBail := True \<rparr>))) \<subseteq> set (nonRootTestIds d)"
    by simp
next
  fix b' c and s :: "'w run"
  assume p: "sameTree d (dslState s) \<and> set (testCallsOf (trace s)) \<subseteq> set (nonRootTestIds d)"
    and q: "rootDescribeBlock < b' \<and> b' < nextId d"
    and c: "c \<in> set (children (blocks (dslState s) b'))"
  have "children (blocks (dslState s) b') = children (blocks d b')"
    using p by (simp add: sameTree_fields(2))
  with c have "c \<in> set (children (blocks d b'))" by simp
  from wfDsl_children [OF wf _ this] q show "rootDescribeBlock < c \<and> c < nextId d"
    by (auto intro: less_trans)
qed

lemma runTests_testCalls:
  assumes wf: "wfDsl d"
  shows "set (testCallsOf (trace (snd (runTests fo opts d w)))) \<subseteq> set (nonRootTestIds d)"
proof (cases "resetExecutionState (Suc (nextId d)) rootDescribeBlock (blocks d)")
  case None
  then show ?thesis by (simp add: runTests_def)
next
  case (Some bs)
  let ?st = "startRun (d\<lparr> blocks := bs \<rparr>) w"
  let ?P = "\<lambda>s. sameTree d (dslState s) \<and> set (testCallsOf (trace s)) \<subseteq> set (nonRootTestIds d)"
  have same: "sameTree d (d\<lparr> blocks := bs \<rparr>)"
    unfolding sameTree_def using resetExecutionState_flags [OF Some] by simp
  then have i0: "?P ?st" by simp
  have r: "rootDescribeBlock < nextId d" using wf by (simp add: wfDsl_def rootDescribeBlock_def)
  have "children (bs rootDescribeBlock) = children (blocks d rootDescribeBlock)"
    using sameTree_fields(2) [OF same, of rootDescribeBlock] by simp
  then have kids: "\<forall>b\<in>set (children (bs rootDescribeBlock)). rootDescribeBlock < b \<and> b < nextId d"
    using wfDsl_children [OF wf r] by auto
  have "?P (snd (topLevelLoop fo opts (nextId d) (children (bs rootDescribeBlock)) ?st))"
    using i0 kids
    by (rule topLevelLoop_invariant
          [where P = ?P and Q = "\<lambda>b. rootDescribeBlock < b \<and> b < nextId d", rotated])
       (rule runDescribeBlock_testCalls [OF wf])
  then show ?thesis
    using Some by (auto simp: runTests_def emit_def split: prod.splits res.splits)
qed

lemma wfDsl_withRootTests: "wfDsl d \<Longrightarrow> wfDsl (withRootTests ts d)"
  by (simp add: wfDsl_def withRootTests_simps)

lemma nonRootTestIds_withRootTests: "nonRootTestIds (withRootTests ts d) = nonRootTestIds d"
proof -
  have "map (\<lambda>b. map (\<lambda>tc. fn_id (tc_fn tc)) (tests (blocks (withRootTests ts d) b))) [1..<nextId d]
      = map (\<lambda>b. map (\<lambda>tc. fn_id (tc_fn tc)) (tests (blocks d b))) [1..<nextId d]"
    by (rule map_cong) (simp_all add: withRootTests_simps rootDescribeBlock_def)
  then show ?thesis unfolding nonRootTestIds_def withRootTests_simps(1) by (rule arg_cong)
qed

text \<open>
  On a well-formed registry the fuel of \<open>collectHooks\<close> is enough: for every allocated
  block it returns a chain.
\<close>

lemma blockChainLoop_returns:
  assumes par: "\<And>c p. c < N \<Longrightarrow> parent (bs c) = Some p \<Longrightarrow> p < c"
  shows "b < N \<Longrightarrow> b < n \<Longrightarrow> \<exists>chain'. blockChainLoop n bs (Some b) chain = Some chain'"
proof (induction n arbitrary: b chain)
  case 0
  then show ?case by simp
next
  case (Suc n)
  show ?case
  proof (cases "parent (bs b)")
    case None
    then show ?thesis by simp
  next
    case (Some p)
    have "p < b" using par [OF Suc.prems(1) Some] .
    then have "p < N" "p < n" using Suc.prems by simp_all
    from Suc.IH [OF this] Some show ?thesis by simp
  qed
qed

lemma collectHooks_returns:
  assumes wf: "wfDsl d" and b: "b < nextId d"
  shows "\<exists>hs. collectHooks d b ty = Some hs"
proof -
  have "\<exists>chain. blockChainLoop (nextId d) (blocks d) (Some b) [] = Some chain"
    by (rule blockChainLoop_returns [where N = "nextId d"])
       (use wf b in \<open>auto intro: wfDsl_parent\<close>)
  then show ?thesis by (auto simp: collectHooks_def)
qed

text \<open>On a well-formed registry the fuel of \<open>getSuitePath\<close> and \<open>getTestList\<close> is enough.\<close>

lemma suitePathLoop_returns:
  assumes par: "\<And>c p. c < N \<Longrightarrow> parent (bs c) = Some p \<Longrightarrow> p < c"
  shows "b < N \<Longrightarrow> b < n \<Longrightarrow> \<exists>path. suitePathLoop n bs b acc = Some path"
proof (induction n arbitrary: b acc)
  case 0
  then show ?case by simp
next
  case (Suc n)
  show ?case
  proof (cases "parent (bs b)")
    case None
    then show ?thesis by simp
  next
    case (Some p)
    have "p < b" using par [OF Suc.prems(1) Some] .
    then have "p < N" "p < n" using Suc.prems by simp_all
    from Suc.IH [OF this] Some show ?thesis by simp
  qed
qed

lemma getSuitePath_returns:
  assumes wf: "wfDsl d" and b: "b < nextId d"
  shows "\<exists>p. getSuitePath d b = Some p"
proof -
  have "\<exists>path. suitePathLoop (Suc (nextId d)) (blocks d) b [] = Some path"
    by (rule suitePathLoop_returns [where N = "nextId d"])
       (use wf b in \<open>auto intro: wfDsl_parent\<close>)
  then show ?thesis by (auto simp: getSuitePath_def)
qed

lemma traverse_returns:
  assumes wf: "wfDsl d"
  shows "b < nextId d \<Longrightarrow> nextId d \<le> n + b \<Longrightarrow> \<exists>l. traverse n d b list = Some l"
proof (induction n arbitrary: b list)
  case 0
  then show ?case by simp
next
  case (Suc n)
  have kids: "\<forall>c\<in>set cs. b < c \<and> c < nextId d \<Longrightarrow> \<exists>l. traverseChildren n d cs acc = Some l"
    for cs acc
  proof (induction cs arbitrary: acc)
    case Nil
    then show ?case by simp
  next
    case (Cons c cs)
    have "c < nextId d" "nextId d \<le> n + c" using Cons.prems Suc.prems by auto
    from Suc.IH [OF this] obtain l where "traverse n d c acc = Some l" by blast
    moreover have "\<exists>l'. traverseChildren n d cs l = Some l'" using Cons by simp
    ultimately show ?case by simp
  qed
  obtain p where p: "getSuitePath d b = Some p"
    using getSuitePath_returns [OF wf Suc.prems(1)] by blast
  have "\<forall>c\<in>set (children (blocks d b)). b < c \<and> c < nextId d"
    using wfDsl_children [OF wf Suc.prems(1)] by blast
  from kids [OF this] p show ?case by simp
qed

lemma getTestList_returns:
  assumes "wfDsl d"
  shows "\<exists>l. getTestList d = Some l"
  unfolding getTestList_def
  by (rule traverse_returns [OF assms]) (use assms in \<open>simp_all add: wfDsl_def rootDescribeBlock_def\<close>)

text \<open>
  C10. A test registered while the pointer is at the root block is appended to the tests
  of the root block. In a well-formed registry its body is never invoked by \<open>runTests\<close>
  (provided the same function is not also the body of a test inside a suite), and
  \<open>getTestList\<close> returns a list, the one it returned before the registration.
\<close>

theorem C10_root_tests_invisible:
  assumes wf: "wfDsl d" and cur: "currentDescribeBlock d = Some rootDescribeBlock"
    and fresh: "fn_id fn \<notin> set (nonRootTestIds d)"
  shows "fst (it nm fn d) = None
    \<and> tests (blocks (snd (it nm fn d)) rootDescribeBlock)
        = tests (blocks d rootDescribeBlock)
          @ [\<lparr> tc_name = fst (extractTags nm), tc_fn = fn, tc_tags = snd (extractTags nm),
               tc_describeBlock = rootDescribeBlock \<rparr>]
    \<and> TestCall (fn_id fn) \<notin> set (calls (snd (runTests fo opts (snd (it nm fn d)) w)))
    \<and> (\<exists>l. getTestList d = Some l \<and> getTestList (snd (it nm fn d)) = Some l)"
proof -
  let ?ts = "tests (blocks d rootDescribeBlock)
          @ [\<lparr> tc_name = fst (extractTags nm), tc_fn = fn, tc_tags = snd (extractTags nm),
               tc_describeBlock = rootDescribeBlock \<rparr>]"
  have it: "it nm fn d = (None, withRootTests ?ts d)" by (rule it_at_root [OF cur])
  have wf': "wfDsl (withRootTests ?ts d)" by (rule wfDsl_withRootTests [OF wf])
  have "set (testCallsOf (trace (snd (runTests fo opts (withRootTests ?ts d) w))))
      \<subseteq> set (nonRootTestIds d)"
    using runTests_testCalls [OF wf', of fo opts w] by (simp add: nonRootTestIds_withRootTests)
  then have "fn_id fn \<notin> set (testCallsOf (trace (snd (runTests fo opts (withRootTests ?ts d) w))))"
    using fresh by blast
  then have c: "TestCall (fn_id fn) \<notin> set (calls (snd (runTests fo opts (withRootTests ?ts d) w)))"
    unfolding calls_def testCallsOf_calls .
  have t: "tests (blocks (withRootTests ?ts d) rootDescribeBlock) = ?ts"
    by (simp add: withRootTests_def)
  obtain l where l: "getTestList d = Some l"
    using getTestList_returns [OF wf] by blast
  show ?thesis
    unfolding it fst_conv snd_conv
    using c t l getTestList_withRootTests [OF wf, of ?ts] by simp
qed

theorem C10_root_tests_invisible_witness:
  "wfDsl scenarioAB \<and> currentDescribeBlock scenarioAB = Some rootDescribeBlock
   \<and> fn_id (pushing 9 ''x'') \<notin> set (nonRootTestIds scenarioAB)
   \<and> map tc_name (tests (blocks (snd (it ''orphan'' (pushing 9 ''x'') scenarioAB)) rootDescribeBlock))
       = [''orphan'']
   \<and> TestCall 9 \<notin> set (calls (snd (runTests noFrames defaultOptions
                                      (snd (it ''orphan'' (pushing 9 ''x'') scenarioAB)) [])))
   \<and> getTestList (snd (it ''orphan'' (pushing 9 ''x'') scenarioAB))
       = Some [\<lparr> tm_suite = ''A'', tm_test = ''t1'' \<rparr>, \<lparr> tm_suite = ''A > B'', tm_test = ''t2'' \<rparr>]"
proof -
  have h1: "wfDsl scenarioAB" by code_simp
  have h2: "currentDescribeBlock scenarioAB = Some rootDescribeBlock" by code_simp
  have h3: "fn_id (pushing 9 ''x'') \<notin> set (nonRootTestIds scenarioAB)" by code_simp
  have n: "map tc_name (tests (blocks (snd (it ''orphan'' (pushing 9 ''x'') scenarioAB))
             rootDescribeBlock)) = [''orphan'']"
    by code_simp
  have g: "getTestList scenarioAB
       = Some [\<lparr> tm_suite = ''A'', tm_test = ''t1'' \<rparr>, \<lparr> tm_suite = ''A > B'', tm_test = ''t2'' \<rparr>]"
    by code_simp
  have i: "fn_id (pushing 9 ''x'') = 9" by (simp add: pushing_def)
  from C10_root_tests_invisible [OF h1 h2 h3, of "''orphan''" noFrames defaultOptions "[]"]
    h1 h2 h3 n g i
  show ?thesis by simp
qed

end
